theory Spec2Isabelle
  imports Main "HOL-Library.AList"
begin

section \<open>Python string primitives used by the parsers\<close>

text \<open>
  A Python \<open>str\<close> is modelled as a \<open>string\<close> whose characters are the code points
  below 256. \<open>isspace\<close> and \<open>isnumeric\<close> are Python's predicates on that range.
\<close>

abbreviation dquote :: char where
  "dquote \<equiv> CHR 0x22"

definition isspace :: "char \<Rightarrow> bool" where
  "isspace c = (c = CHR 0x09 \<or> c = CHR 0x0A \<or> c = CHR 0x0B \<or> c = CHR 0x0C \<or> c = CHR 0x0D
     \<or> c = CHR 0x1C \<or> c = CHR 0x1D \<or> c = CHR 0x1E \<or> c = CHR 0x1F \<or> c = CHR 0x20
     \<or> c = CHR 0x85 \<or> c = CHR 0xA0)"

definition isnumeric_char :: "char \<Rightarrow> bool" where
  "isnumeric_char c = (c = CHR ''0'' \<or> c = CHR ''1'' \<or> c = CHR ''2'' \<or> c = CHR ''3''
     \<or> c = CHR ''4'' \<or> c = CHR ''5'' \<or> c = CHR ''6'' \<or> c = CHR ''7'' \<or> c = CHR ''8''
     \<or> c = CHR ''9'' \<or> c = CHR 0xB2 \<or> c = CHR 0xB3 \<or> c = CHR 0xB9 \<or> c = CHR 0xBC
     \<or> c = CHR 0xBD \<or> c = CHR 0xBE)"

text \<open>\<open>s.isnumeric()\<close>: at least one character, all of them numeric.\<close>

definition isnumeric :: "string \<Rightarrow> bool" where
  "isnumeric s = (s \<noteq> [] \<and> list_all isnumeric_char s)"

text \<open>\<open>s.strip()\<close>: leading and trailing whitespace removed.\<close>

definition py_strip :: "string \<Rightarrow> string" where
  "py_strip s = rev (dropWhile isspace (rev (dropWhile isspace s)))"

fun starts_with :: "string \<Rightarrow> string \<Rightarrow> bool" where
  "starts_with [] s = True"
| "starts_with (x # xs) [] = False"
| "starts_with (x # xs) (y # ys) = (x = y \<and> starts_with xs ys)"

text \<open>\<open>needle in hay\<close> on strings: the substring test.\<close>

fun py_in :: "string \<Rightarrow> string \<Rightarrow> bool" where
  "py_in needle [] = (needle = [])"
| "py_in needle (c # cs) = (starts_with needle (c # cs) \<or> py_in needle cs)"

text \<open>
  \<open>s.split(sep)\<close> for a non-empty separator (every separator in the source is a non-empty
  literal): non-overlapping occurrences, left to right. \<open>cur\<close> is the piece being read.
\<close>

fun split_from :: "string \<Rightarrow> string \<Rightarrow> string \<Rightarrow> string list" where
  "split_from sep cur [] = [cur]"
| "split_from sep cur (c # cs) =
     (if starts_with sep (c # cs) then cur # split_from sep [] (drop (length sep - 1) cs)
      else split_from sep (cur @ [c]) cs)"

definition py_split :: "string \<Rightarrow> string \<Rightarrow> string list" where
  "py_split sep s = split_from sep [] s"

text \<open>\<open>s.replace(old, new)\<close>, with Python's rule for an empty \<open>old\<close>.\<close>

fun replace_from :: "string \<Rightarrow> string \<Rightarrow> string \<Rightarrow> string" where
  "replace_from old new [] = []"
| "replace_from old new (c # cs) =
     (if starts_with old (c # cs) then new @ replace_from old new (drop (length old - 1) cs)
      else c # replace_from old new cs)"

definition py_replace :: "string \<Rightarrow> string \<Rightarrow> string \<Rightarrow> string" where
  "py_replace old new s =
     (if old = [] then new @ concat (map (\<lambda>c. c # new) s) else replace_from old new s)"

text \<open>
  \<open>re.search(open (.+?) close, s)\<close> as a truth value: somewhere \<open>open\<close>, then one or more
  characters other than a newline, then \<open>close\<close>.
\<close>

fun find_close :: "string \<Rightarrow> string \<Rightarrow> bool" where
  "find_close close [] = starts_with close []"
| "find_close close (c # cs) =
     (starts_with close (c # cs) \<or> (c \<noteq> CHR 0x0A \<and> find_close close cs))"

definition match_here :: "string \<Rightarrow> string \<Rightarrow> string \<Rightarrow> bool" where
  "match_here opn close s =
     (starts_with opn s \<and>
      (case drop (length opn) s of [] \<Rightarrow> False
       | c # cs \<Rightarrow> c \<noteq> CHR 0x0A \<and> find_close close cs))"

fun re_search :: "string \<Rightarrow> string \<Rightarrow> string \<Rightarrow> bool" where
  "re_search opn close [] = match_here opn close []"
| "re_search opn close (c # cs) = (match_here opn close (c # cs) \<or> re_search opn close cs)"

datatype py_error = IndexError | KeyError | AttributeError

text \<open>\<open>xs[i]\<close>: a negative index counts from the end, and out of range raises.\<close>

definition index :: "'a list \<Rightarrow> int \<Rightarrow> py_error + 'a" where
  "index xs i =
     (if 0 \<le> i then (if nat i < length xs then Inr (xs ! nat i) else Inl IndexError)
      else (if nat (- i) \<le> length xs then Inr (xs ! (length xs - nat (- i)))
            else Inl IndexError))"

text \<open>Sequencing of two steps of which the first may raise.\<close>

definition and_then :: "py_error + 'a \<Rightarrow> ('a \<Rightarrow> py_error + 'b) \<Rightarrow> py_error + 'b" where
  "and_then m f = (case m of Inl e \<Rightarrow> Inl e | Inr x \<Rightarrow> f x)"

section \<open>\<open>PackageParser._parse_package_string\<close>\<close>

record pstate =
  split_package_string :: "string list"
  temp :: string
  quotes_count :: nat
  brackets_count :: int

definition pps_init :: pstate where
  "pps_init = \<lparr>split_package_string = [], temp = [], quotes_count = 0, brackets_count = 0\<rparr>"

text \<open>One pass of the loop body over the character \<open>c\<close>.\<close>

definition pps_step :: "pstate \<Rightarrow> char \<Rightarrow> pstate" where
  "pps_step st c =
     (let t = temp st @ [c];
          q = (if c = dquote then quotes_count st + 1 else quotes_count st);
          b = (if c = dquote then brackets_count st
               else if c = CHR ''['' then brackets_count st + 1
               else if c = CHR '']'' then brackets_count st - 1
               else brackets_count st)
      in if c = CHR '' '' \<and> q mod 2 = 0 \<and> b = 0
         then \<lparr>split_package_string = split_package_string st @ [py_strip t], temp = [],
               quotes_count = q, brackets_count = b\<rparr>
         else \<lparr>split_package_string = split_package_string st, temp = t,
               quotes_count = q, brackets_count = b\<rparr>)"

definition pps_finish :: "pstate \<Rightarrow> string list" where
  "pps_finish st =
     (if temp st \<noteq> [] then split_package_string st @ [py_strip (temp st)]
      else split_package_string st)"

definition pps_loop :: "string \<Rightarrow> pstate" where
  "pps_loop package_string = foldl pps_step pps_init package_string"

definition parse_package_string :: "string \<Rightarrow> string list" where
  "parse_package_string package_string = pps_finish (pps_loop package_string)"

section \<open>\<open>PackageParser._determine_update_status\<close>\<close>

definition determine_update_status :: "string \<Rightarrow> string" where
  "determine_update_status update_status =
     (if py_in ''N'' update_status then '''' @ ''NewPackage''
      else if py_in ''R'' update_status then '''' @ ''ReEmerge''
      else if py_in ''U'' update_status then '''' @ ''Update''
      else '''' @ ''Undefined'')"

section \<open>\<open>PackageInfo\<close> and the three builders\<close>

datatype attr_value = StrVal string | ListVal "string list"

record PackageInfo =
  package_type :: string
  package_name :: string
  new_version :: "string option"
  old_version :: "string option"
  update_status :: string
  repo :: "string option"
  attributes :: "(string \<times> attr_value) list"

text \<open>
  Modelled from the spec: the class \<open>PackageInfo\<close> of \<open>report_objects\<close> is not among the
  sources. Its constructor takes the six fields in the order above and starts with no
  attributes; \<open>add_attributes\<close> stores every entry of the given dictionary under its key,
  a mapping from a key to its value in which a later entry for a key replaces the earlier.
\<close>

definition new_PackageInfo ::
  "string \<Rightarrow> string \<Rightarrow> string option \<Rightarrow> string option \<Rightarrow> string \<Rightarrow> string option \<Rightarrow> PackageInfo"
where
  "new_PackageInfo ty nm nv ov st rp =
     \<lparr>package_type = ty, package_name = nm, new_version = nv, old_version = ov,
      update_status = st, repo = rp, attributes = []\<rparr>"

definition add_attributes :: "PackageInfo \<Rightarrow> (string \<times> attr_value) list \<Rightarrow> PackageInfo" where
  "add_attributes info d =
     info\<lparr>attributes := foldl (\<lambda>m kv. AList.update (fst kv) (snd kv) m) (attributes info) d\<rparr>"

text \<open>The three tests of the loop over the hyphen-separated parts that leave a part out
  of the name.\<close>

definition version_part :: "string \<Rightarrow> bool" where
  "version_part part =
     (if isnumeric part then True
      else if py_in ''.'' part \<or> py_in '':'' part then True
      else if length part = 2 \<and> part ! 0 = CHR ''r'' \<and> isnumeric [part ! 1] then True
      else False)"

definition name_loop :: "string list \<Rightarrow> string" where
  "name_loop parts =
     foldl (\<lambda>nm part. if version_part part then nm else nm @ part @ ''-'') [] parts"

text \<open>The closing loop of the ebuild builder over every token.\<close>

fun ebuild_attributes :: "PackageInfo \<Rightarrow> string list \<Rightarrow> py_error + PackageInfo" where
  "ebuild_attributes info [] = Inr info"
| "ebuild_attributes info (var # rest) =
     (if py_in [CHR ''='', dquote] var
      then and_then (index (py_split ''='' var) 0) (\<lambda>k.
           and_then (index (py_split ''='' var) 1) (\<lambda>v.
           ebuild_attributes
             (add_attributes info [(k, ListVal (py_split '' '' (butlast (drop 1 v))))]) rest))
      else ebuild_attributes info rest)"

definition parse_package_ebuild :: "string list \<Rightarrow> py_error + PackageInfo" where
  "parse_package_ebuild sps =
     and_then (index sps 0) (\<lambda>t0.
     and_then (index sps 1) (\<lambda>package_base_info.
     and_then (index (py_split ''::'' package_base_info) 1) (\<lambda>rp.
     and_then (index (py_split ''::'' package_base_info) 0) (\<lambda>name_newversion.
     let nm = name_loop (py_split ''-'' name_newversion);
         nv = py_replace nm [] name_newversion
     in and_then (index sps 2) (\<lambda>t2.
        and_then (index (py_split ''::'' t2) 0) (\<lambda>ov.
        ebuild_attributes
          (new_PackageInfo ''ebuild'' (butlast nm) (Some nv) (Some (drop 1 ov))
             (determine_update_status t0) (Some rp))
          sps))))))"

definition parse_package_blocks :: "string list \<Rightarrow> py_error + PackageInfo" where
  "parse_package_blocks sps =
     and_then (index sps 1) (\<lambda>t1.
     and_then (index sps 0) (\<lambda>t0.
     and_then (index sps (- 1)) (\<lambda>tl.
     Inr (add_attributes (new_PackageInfo ''blocks'' (drop 1 t1) None None t0 None)
            [(''blocked_package'', StrVal (butlast tl))]))))"

definition parse_package_uninstall :: "string list \<Rightarrow> py_error + PackageInfo" where
  "parse_package_uninstall sps =
     and_then (index sps 1) (\<lambda>t1.
     and_then (index (py_split ''::'' t1) 0) (\<lambda>nm.
     and_then (index (py_split ''::'' t1) 1) (\<lambda>rp.
     and_then (index sps 0) (\<lambda>t0.
     Inr (add_attributes (new_PackageInfo ''uninstall'' nm None None t0 (Some rp))
            [(''uninstalled_package'', StrVal nm)])))))"

section \<open>\<open>PackageParser.parse_update_details\<close>\<close>

definition package_line :: "string \<Rightarrow> bool" where
  "package_line line = (re_search ''['' '']'' line \<and> line \<noteq> ''[ ok ]'')"

text \<open>The body of the loop up to the test of \<open>package\<close>: the record built for one line,
  \<open>None\<close> when no builder is chosen. A \<open>PackageInfo\<close> object counts as true in
  \<open>if package\<close>, so every record built is appended.\<close>

definition package_of :: "string \<Rightarrow> py_error + PackageInfo option" where
  "package_of package_string =
     (let sps = parse_package_string package_string
      in and_then (index sps 0) (\<lambda>st.
         if py_in ''ebuild'' st then and_then (parse_package_ebuild sps) (\<lambda>p. Inr (Some p))
         else if py_in ''blocks'' st then and_then (parse_package_blocks sps) (\<lambda>p. Inr (Some p))
         else if py_in ''uninstall'' st
           then and_then (parse_package_uninstall sps) (\<lambda>p. Inr (Some p))
         else Inr None))"

fun packages_loop :: "PackageInfo list \<Rightarrow> string list \<Rightarrow> py_error + PackageInfo list" where
  "packages_loop packages [] = Inr packages"
| "packages_loop packages (package_string # rest) =
     and_then (package_of package_string) (\<lambda>package.
       packages_loop (case package of None \<Rightarrow> packages | Some p \<Rightarrow> packages @ [p]) rest)"

definition parse_update_details :: "string list \<Rightarrow> py_error + PackageInfo list" where
  "parse_update_details section_content =
     packages_loop [] (filter package_line section_content)"

section \<open>\<open>Parser.split_log_to_sections\<close>\<close>

datatype section_value = Content "string list" | Raw string

text \<open>
  The dictionary \<open>log_by_sections\<close> keeps its keys in the order of their first
  insertion; a section holds a list of lines, and the key \<open>final\<close> holds a bare line.
\<close>

record sstate =
  section_name :: string
  log_by_sections :: "(string \<times> section_value) list"

definition sls_init :: sstate where
  "sls_init = \<lparr>section_name = ''beginning'', log_by_sections = [(''beginning'', Content [])]\<rparr>"

text \<open>The body of the loop for one line of the log.\<close>

definition sls_step :: "sstate \<Rightarrow> string \<Rightarrow> py_error + sstate" where
  "sls_step st line =
     (if py_in '' ::: '' line
      then and_then (index (py_split '' ::: '' line) 1) (\<lambda>part.
        let line' = py_strip part
        in if re_search ''{{'' ''}}'' line'
           then Inr \<lparr>section_name = line',
                     log_by_sections = AList.update line' (Content []) (log_by_sections st)\<rparr>
           else (case map_of (log_by_sections st) (section_name st) of
                   None \<Rightarrow> Inl KeyError
                 | Some (Content ls) \<Rightarrow>
                     Inr (st\<lparr>log_by_sections :=
                       AList.update (section_name st) (Content (ls @ [line']))
                         (log_by_sections st)\<rparr>)
                 | Some (Raw s) \<Rightarrow> Inl AttributeError))
      else Inr (st\<lparr>log_by_sections :=
             AList.update ''final'' (Raw line) (log_by_sections st)\<rparr>))"

fun sls_loop :: "sstate \<Rightarrow> string list \<Rightarrow> py_error + sstate" where
  "sls_loop st [] = Inr st"
| "sls_loop st (line # rest) = and_then (sls_step st line) (\<lambda>st'. sls_loop st' rest)"

definition split_log_to_sections ::
  "string list \<Rightarrow> py_error + (string \<times> section_value) list" where
  "split_log_to_sections log_data =
     and_then (sls_loop sls_init log_data) (\<lambda>st. Inr (log_by_sections st))"

section \<open>Notions in which the properties are stated\<close>

text \<open>The two counters of the tokenizer, read off a prefix of the line.\<close>

definition quotes_in :: "string \<Rightarrow> nat" where
  "quotes_in s = count_list s dquote"

definition depth_in :: "string \<Rightarrow> int" where
  "depth_in s = int (count_list s (CHR ''['')) - int (count_list s (CHR '']''))"

definition quotes_after :: "nat \<Rightarrow> char \<Rightarrow> nat" where
  "quotes_after q c = (if c = dquote then q + 1 else q)"

definition brackets_after :: "int \<Rightarrow> char \<Rightarrow> int" where
  "brackets_after b c = (if c = CHR ''['' then b + 1 else if c = CHR '']'' then b - 1 else b)"

definition is_separator :: "nat \<Rightarrow> int \<Rightarrow> char \<Rightarrow> bool" where
  "is_separator q b c =
     (c = CHR '' '' \<and> even (quotes_after q c) \<and> brackets_after b c = 0)"

text \<open>The tokens still to come when the loop stands before \<open>s\<close> with counters \<open>q\<close>, \<open>b\<close>
  and buffer \<open>t\<close>.\<close>

fun tokens_from :: "nat \<Rightarrow> int \<Rightarrow> string \<Rightarrow> string \<Rightarrow> string list" where
  "tokens_from q b t [] = (if t = [] then [] else [py_strip t])"
| "tokens_from q b t (c # cs) =
     (if is_separator q b c
      then py_strip (t @ [c]) # tokens_from (quotes_after q c) (brackets_after b c) [] cs
      else tokens_from (quotes_after q c) (brackets_after b c) (t @ [c]) cs)"

text \<open>The tokens that the builder chosen for a line reads by position are there.\<close>

definition builder_ready :: "string \<Rightarrow> bool" where
  "builder_ready line =
     (let sps = parse_package_string line; st = sps ! 0
      in if py_in ''ebuild'' st then 3 \<le> length sps \<and> py_in ''::'' (sps ! 1)
         else if py_in ''blocks'' st then 2 \<le> length sps
         else if py_in ''uninstall'' st then 2 \<le> length sps \<and> py_in ''::'' (sps ! 1)
         else True)"

text \<open>A line holds an opening bracket, then at least one character and no newline, then
  a closing bracket.\<close>

definition bracketed :: "string \<Rightarrow> bool" where
  "bracketed line =
     (\<exists>a m b. line = a @ ''['' @ m @ '']'' @ b \<and> m \<noteq> [] \<and> CHR 0x0A \<notin> set m)"

text \<open>The results of the lines put together in their order: the first error if there is
  one, else the records, a line without a record contributing nothing.\<close>

fun gather :: "(py_error + 'a option) list \<Rightarrow> py_error + 'a list" where
  "gather [] = Inr []"
| "gather (r # rs) =
     and_then r (\<lambda>x. and_then (gather rs) (\<lambda>xs.
       Inr (case x of None \<Rightarrow> xs | Some p \<Rightarrow> p # xs)))"

text \<open>The hyphen-separated parts of the second token's text before \<open>::\<close> that the
  name loop of the ebuild builder keeps.\<close>

definition name_parts :: "string list \<Rightarrow> string list" where
  "name_parts sps =
     filter (\<lambda>part. \<not> version_part part) (py_split ''-'' (hd (py_split ''::'' (sps ! 1))))"

text \<open>
  Whitespace outside quoted and bracketed spans is whitespace read while the quote counter
  is even and the bracket counter is zero. \<open>words_outside\<close> gives the pieces of a line
  between runs of such whitespace; two lines with the same pieces differ only in how long
  those runs are, which whitespace characters they hold, and whether the line begins or
  ends with one.
\<close>

fun words_from :: "nat \<Rightarrow> int \<Rightarrow> string \<Rightarrow> string \<Rightarrow> string list" where
  "words_from q b cur [] = (if cur = [] then [] else [cur])"
| "words_from q b cur (c # cs) =
     (if isspace c \<and> even (quotes_after q c) \<and> brackets_after b c = 0
      then (if cur = [] then [] else [cur])
           @ words_from (quotes_after q c) (brackets_after b c) [] cs
      else words_from (quotes_after q c) (brackets_after b c) (cur @ [c]) cs)"

definition words_outside :: "string \<Rightarrow> string list" where
  "words_outside s = words_from 0 0 [] s"

text \<open>\<open>" ".join(xs)\<close>.\<close>

fun join_sp :: "string list \<Rightarrow> string" where
  "join_sp [] = []"
| "join_sp [x] = x"
| "join_sp (x # y # ys) = x @ '' '' @ join_sp (y # ys)"

text \<open>A line with balanced quotes and brackets: an even number of double quotes, and as
  many \<open>]\<close> as \<open>[\<close>.\<close>

definition balanced :: "string \<Rightarrow> bool" where
  "balanced s = (even (quotes_in s) \<and> depth_in s = 0)"

text \<open>No character of \<open>s\<close> ends a token when the scan reaches \<open>s\<close> with counters \<open>q\<close>
  and \<open>b\<close>.\<close>

fun nosep :: "nat \<Rightarrow> int \<Rightarrow> string \<Rightarrow> bool" where
  "nosep q b [] = True"
| "nosep q b (c # cs) =
     (\<not> is_separator q b c \<and> nosep (quotes_after q c) (brackets_after b c) cs)"

text \<open>
  A marked line holds the marker. Its payload is the trimmed text after the marker, that
  is, after its first occurrence; a text that matches the section pattern is a header.
\<close>

definition marked :: "string \<Rightarrow> bool" where
  "marked line = py_in '' ::: '' line"

fun after_first :: "string \<Rightarrow> string \<Rightarrow> string" where
  "after_first sep [] = []"
| "after_first sep (c # cs) =
     (if starts_with sep (c # cs) then drop (length sep - 1) cs else after_first sep cs)"

definition after_marker :: "string \<Rightarrow> string" where
  "after_marker line = after_first '' ::: '' line"

definition payload :: "string \<Rightarrow> string" where
  "payload line = py_strip (after_marker line)"

definition is_header :: "string \<Rightarrow> bool" where
  "is_header p = re_search ''{{'' ''}}'' p"

definition section_headers :: "string list \<Rightarrow> string list" where
  "section_headers log_data = filter is_header (map payload (filter marked log_data))"

definition content_lines :: "string list \<Rightarrow> string list" where
  "content_lines log_data =
     filter (\<lambda>p. \<not> is_header p) (map payload (filter marked log_data))"

text \<open>
  What the loop keeps of a marked line: the trimmed piece between the first marker and
  the next one, which is the payload when the line holds the marker once.
\<close>

definition kept_text :: "string \<Rightarrow> string" where
  "kept_text line = py_strip (py_split '' ::: '' line ! 1)"

definition kept_headers :: "string list \<Rightarrow> string list" where
  "kept_headers log_data = filter is_header (map kept_text (filter marked log_data))"

definition kept_lines :: "string list \<Rightarrow> string list" where
  "kept_lines log_data =
     filter (\<lambda>p. \<not> is_header p) (map kept_text (filter marked log_data))"

definition unmarked :: "string list \<Rightarrow> string list" where
  "unmarked log_data = filter (\<lambda>line. \<not> marked line) log_data"

text \<open>The content lists of a dictionary put together in the order of its keys, and
  the keys that hold a content list.\<close>

fun is_raw :: "section_value \<Rightarrow> bool" where
  "is_raw (Raw s) = True"
| "is_raw (Content ls) = False"

fun lines_of :: "section_value \<Rightarrow> string list" where
  "lines_of (Content ls) = ls"
| "lines_of (Raw s) = []"

definition contents :: "(string \<times> section_value) list \<Rightarrow> string list" where
  "contents d = concat (map (\<lambda>e. lines_of (snd e)) d)"

definition content_keys :: "(string \<times> section_value) list \<Rightarrow> string list" where
  "content_keys d = map fst (filter (\<lambda>e. \<not> is_raw (snd e)) d)"

text \<open>What the loop keeps true of the current section name and the dictionary.\<close>

definition sections_ok :: "string \<Rightarrow> (string \<times> section_value) list \<Rightarrow> bool" where
  "sections_ok nm d =
     (distinct (map fst d) \<and> content_keys d \<noteq> [] \<and> last (content_keys d) = nm
      \<and> (\<forall>e\<in>set d. (fst e = ''final'') = is_raw (snd e)))"

section \<open>Facts about the string primitives\<close>

lemma py_in_single: "py_in [c] s = (c \<in> set s)"
  by (induction s) auto

section \<open>The tokenizer as a scan\<close>

lemma pps_step_counts:
  "quotes_count (pps_step st c) = quotes_after (quotes_count st) c"
  "brackets_count (pps_step st c) = brackets_after (brackets_count st) c"
  by (simp_all add: pps_step_def quotes_after_def brackets_after_def Let_def)

lemma pps_step_sep:
  "is_separator (quotes_count st) (brackets_count st) c
   \<Longrightarrow> split_package_string (pps_step st c) = split_package_string st @ [py_strip (temp st @ [c])]
       \<and> temp (pps_step st c) = []"
  by (auto simp add: pps_step_def is_separator_def quotes_after_def brackets_after_def Let_def)

lemma pps_step_keep:
  "\<not> is_separator (quotes_count st) (brackets_count st) c
   \<Longrightarrow> split_package_string (pps_step st c) = split_package_string st
       \<and> temp (pps_step st c) = temp st @ [c]"
  by (auto simp add: pps_step_def is_separator_def quotes_after_def brackets_after_def Let_def)

lemma finish_foldl:
  "pps_finish (foldl pps_step st s) =
     split_package_string st @ tokens_from (quotes_count st) (brackets_count st) (temp st) s"
proof (induction s arbitrary: st)
  case Nil
  show ?case by (simp add: pps_finish_def)
next
  case (Cons c cs)
  show ?case
  proof (cases "is_separator (quotes_count st) (brackets_count st) c")
    case True
    then show ?thesis
      using Cons.IH [of "pps_step st c"] pps_step_sep [OF True]
      by (simp add: pps_step_counts)
  next
    case False
    then show ?thesis
      using Cons.IH [of "pps_step st c"] pps_step_keep [OF False]
      by (simp add: pps_step_counts)
  qed
qed

lemma parse_tokens_from: "parse_package_string s = tokens_from 0 0 [] s"
  by (simp add: parse_package_string_def pps_loop_def finish_foldl pps_init_def)

lemma loop_counts:
  "quotes_count (foldl pps_step st s) = quotes_count st + quotes_in s
   \<and> brackets_count (foldl pps_step st s) = brackets_count st + depth_in s"
  by (induction s arbitrary: st)
     (simp_all add: pps_step_counts quotes_in_def depth_in_def quotes_after_def brackets_after_def)

section \<open>Status classification\<close>

text \<open>
  C4. For every string, \<open>_determine_update_status\<close> answers \<open>NewPackage\<close> when the string
  holds the character N, otherwise \<open>ReEmerge\<close> when it holds R, otherwise \<open>Update\<close> when it
  holds U, otherwise \<open>Undefined\<close>: the first test that succeeds decides, and the tests are
  case-sensitive.
\<close>

theorem determine_update_status_precedence:
  "determine_update_status s =
     (if CHR ''N'' \<in> set s then ''NewPackage''
      else if CHR ''R'' \<in> set s then ''ReEmerge''
      else if CHR ''U'' \<in> set s then ''Update''
      else ''Undefined'')"
  by (simp add: determine_update_status_def py_in_single)

section \<open>Where the tokenizer splits\<close>

lemma pps_loop_counts:
  "quotes_count (pps_loop p) = quotes_in p" "brackets_count (pps_loop p) = depth_in p"
  using loop_counts [of pps_init p] by (simp_all add: pps_loop_def pps_init_def)

lemma pps_loop_snoc: "pps_loop (p @ [c]) = pps_step (pps_loop p) c"
  by (simp add: pps_loop_def)

lemma is_separator_space:
  "is_separator q b c = (c = CHR '' '' \<and> even q \<and> b = 0)"
  by (auto simp add: is_separator_def quotes_after_def brackets_after_def)

lemma tokens_from_parity:
  "even q \<Longrightarrow> tokens_from (q + k) b t s = tokens_from k b t s"
proof (induction s arbitrary: k b t)
  case Nil
  show ?case by simp
next
  case (Cons c cs)
  have a: "quotes_after (q + k) c = q + quotes_after k c"
    by (simp add: quotes_after_def)
  have b: "is_separator (q + k) b c = is_separator k b c"
    using Cons.prems by (simp add: is_separator_space)
  show ?case using Cons.IH Cons.prems by (simp add: a b)
qed

lemma parse_append:
  "parse_package_string (u @ v) =
     split_package_string (pps_loop u) @
     tokens_from (quotes_in u) (depth_in u) (temp (pps_loop u)) v"
  using finish_foldl [of "pps_loop u" v]
  by (simp add: parse_package_string_def pps_loop_def pps_loop_counts [unfolded pps_loop_def])

lemma py_strip_space: "py_strip '' '' = []"
  by (simp add: py_strip_def isspace_def)

lemma counts_snoc_space:
  "quotes_in (p @ '' '') = quotes_in p" "depth_in (p @ '' '') = depth_in p"
  by (simp_all add: quotes_in_def depth_in_def)

lemma temp_after_separator:
  assumes "even (quotes_in p)" "depth_in p = 0" "p = [] \<or> last p = CHR '' ''"
  shows "temp (pps_loop p) = []"
proof (cases p rule: rev_cases)
  case Nil
  then show ?thesis by (simp add: pps_loop_def pps_init_def)
next
  case (snoc p' c)
  with assms have c: "c = CHR '' ''" by simp
  have "is_separator (quotes_count (pps_loop p')) (brackets_count (pps_loop p')) c"
    using assms snoc c by (simp add: is_separator_space pps_loop_counts counts_snoc_space)
  from pps_step_sep [OF this] show ?thesis
    by (simp add: snoc pps_loop_snoc)
qed

text \<open>
  C5. While \<open>_parse_package_string\<close> scans a line, its quote counter is the number of
  double quotes read so far and its bracket counter the number of \<open>[\<close> minus the number
  of \<open>]\<close> read so far. The next character ends the current token exactly when it is a
  space, the quote counter is even and the bracket counter is zero: the buffer with that
  space, trimmed, is appended to the tokens and the buffer is emptied. Every other
  character, a space included, is appended to the buffer. At the end of the line a
  non-empty buffer is emitted, trimmed, as the last token.
\<close>

theorem separator_rule:
  "(let st = pps_loop p; st' = pps_loop (p @ [c])
    in quotes_count st = quotes_in p \<and> brackets_count st = depth_in p \<and>
       (if c = CHR '' '' \<and> even (quotes_in p) \<and> depth_in p = 0
        then split_package_string st' = split_package_string st @ [py_strip (temp st @ [c])]
             \<and> temp st' = []
        else split_package_string st' = split_package_string st \<and> temp st' = temp st @ [c]))
   \<and> parse_package_string p =
       split_package_string (pps_loop p) @
       (if temp (pps_loop p) = [] then [] else [py_strip (temp (pps_loop p))])"
proof -
  have sep: "is_separator (quotes_count (pps_loop p)) (brackets_count (pps_loop p)) c
      = (c = CHR '' '' \<and> even (quotes_in p) \<and> depth_in p = 0)"
    by (simp add: is_separator_space pps_loop_counts)
  have fin: "parse_package_string p =
       split_package_string (pps_loop p) @
       (if temp (pps_loop p) = [] then [] else [py_strip (temp (pps_loop p))])"
    by (simp add: parse_package_string_def pps_finish_def)
  show ?thesis
  proof (cases "c = CHR '' '' \<and> even (quotes_in p) \<and> depth_in p = 0")
    case True
    with sep have "is_separator (quotes_count (pps_loop p)) (brackets_count (pps_loop p)) c"
      by simp
    from pps_step_sep [OF this] True fin show ?thesis
      by (simp add: Let_def pps_loop_snoc pps_loop_counts)
  next
    case False
    with sep have "\<not> is_separator (quotes_count (pps_loop p)) (brackets_count (pps_loop p)) c"
      by simp
    from pps_step_keep [OF this] False fin show ?thesis
      by (auto simp add: Let_def pps_loop_snoc pps_loop_counts)
  qed
qed

text \<open>
  C10. A separator space that opens the line, or that directly follows another separator
  space, is read with an empty buffer and so emits the empty string as a token: the
  tokens of the line are the tokens before that space, then the empty token, then the
  tokens of the rest. The line \<open>a  b\<close> gives the three tokens \<open>a\<close>, the empty string
  and \<open>b\<close>.
\<close>

theorem empty_token_for_repeated_separator:
  assumes "even (quotes_in p)" and "depth_in p = 0" and "p = [] \<or> last p = CHR '' ''"
  shows "parse_package_string (p @ '' '' @ rest) =
           parse_package_string p @ [[]] @ parse_package_string rest"
proof -
  have t: "temp (pps_loop p) = []" by (rule temp_after_separator [OF assms])
  have "is_separator (quotes_count (pps_loop p)) (brackets_count (pps_loop p)) (CHR '' '')"
    using assms by (simp add: is_separator_space pps_loop_counts)
  from pps_step_sep [OF this] t
  have st: "split_package_string (pps_loop (p @ '' '')) = split_package_string (pps_loop p) @ [[]]"
    "temp (pps_loop (p @ '' '')) = []"
    by (simp_all add: pps_loop_snoc py_strip_space)
  have p: "parse_package_string p = split_package_string (pps_loop p)"
    by (simp add: parse_package_string_def pps_finish_def t)
  have "parse_package_string ((p @ '' '') @ rest) =
      (split_package_string (pps_loop p) @ [[]]) @ tokens_from (quotes_in p) 0 [] rest"
    using assms by (simp only: parse_append st counts_snoc_space)
  also have "tokens_from (quotes_in p) 0 [] rest = parse_package_string rest"
    using tokens_from_parity [OF assms(1), of 0 0 "[]" rest] by (simp add: parse_tokens_from)
  finally show ?thesis by (simp add: p)
qed

theorem empty_token_for_repeated_separator_witness:
  "parse_package_string ''a  b'' = [''a'', [], ''b'']"
proof -
  have h: "even (quotes_in ''a '')" "depth_in ''a '' = 0" "''a '' = [] \<or> last ''a '' = CHR '' ''"
    by (simp_all add: quotes_in_def depth_in_def)
  have a: "parse_package_string ''a '' = [''a'']" by code_simp
  have b: "parse_package_string ''b'' = [''b'']" by code_simp
  from empty_token_for_repeated_separator [OF h, of "''b''"] a b show ?thesis by simp
qed

section \<open>The ebuild builder\<close>

lemma two_chars: "length (p::string) = 2 \<Longrightarrow> p = [p ! 0, p ! 1]"
  by (cases p; cases "tl p") auto

lemma version_part_iff:
  "version_part part =
     (isnumeric part \<or> CHR ''.'' \<in> set part \<or> CHR '':'' \<in> set part
      \<or> (\<exists>d. part = [CHR ''r'', d] \<and> isnumeric_char d))"
proof -
  have "(length part = 2 \<and> part ! 0 = CHR ''r'' \<and> isnumeric [part ! 1])
      = (\<exists>d. part = [CHR ''r'', d] \<and> isnumeric_char d)"
    using two_chars [of part] by (auto simp add: isnumeric_def)
  then show ?thesis
    by (auto simp add: version_part_def py_in_single)
qed

lemma name_loop_from:
  "foldl (\<lambda>nm part. if version_part part then nm else nm @ part @ ''-'') acc parts =
     acc @ concat (map (\<lambda>part. part @ ''-'') (filter (\<lambda>part. \<not> version_part part) parts))"
  by (induction parts arbitrary: acc) simp_all

lemma name_loop_filter:
  "name_loop parts =
     concat (map (\<lambda>part. part @ ''-'') (filter (\<lambda>part. \<not> version_part part) parts))"
  by (simp add: name_loop_def name_loop_from)

text \<open>
  C1. Scenario A: the line
  \<open>[ebuild     U  ] sys-devel/gnuconfig-20230731::gentoo [20230121::gentoo] 72 KiB\<close>
  gives exactly one record, of kind ebuild, named \<open>sys-devel/gnuconfig\<close>, with new version
  \<open>20230731\<close>, old version \<open>20230121\<close>, repository \<open>gentoo\<close> and status \<open>Update\<close>. The
  name comes from the hyphen-separated parts: a part is left out of the name exactly when
  it is numeric, holds a dot or a colon, or is \<open>r\<close> followed by one numeric character, and
  the other parts are put together, each followed by a hyphen.
\<close>

theorem scenario_A:
  "parse_update_details
     [''[ebuild     U  ] sys-devel/gnuconfig-20230731::gentoo [20230121::gentoo] 72 KiB''] =
   Inr [\<lparr>package_type = ''ebuild'', package_name = ''sys-devel/gnuconfig'',
         new_version = Some ''20230731'', old_version = Some ''20230121'',
         update_status = ''Update'', repo = Some ''gentoo'', attributes = []\<rparr>]
   \<and> version_part part =
       (isnumeric part \<or> CHR ''.'' \<in> set part \<or> CHR '':'' \<in> set part
        \<or> (\<exists>d. part = [CHR ''r'', d] \<and> isnumeric_char d))
   \<and> name_loop parts =
       concat (map (\<lambda>part. part @ ''-'') (filter (\<lambda>part. \<not> version_part part) parts))"
proof (intro conjI)
  show "parse_update_details
     [''[ebuild     U  ] sys-devel/gnuconfig-20230731::gentoo [20230121::gentoo] 72 KiB''] =
   Inr [\<lparr>package_type = ''ebuild'', package_name = ''sys-devel/gnuconfig'',
         new_version = Some ''20230731'', old_version = Some ''20230121'',
         update_status = ''Update'', repo = Some ''gentoo'', attributes = []\<rparr>]"
    by code_simp
qed (rule version_part_iff, rule name_loop_filter)

text \<open>
  C9. An attribute token is meant to give its key, the text left of the first \<open>=\<close>, and
  as value the whole quoted text without its quotes, split on spaces. The builder splits
  the token on every \<open>=\<close> and reads only the piece after the first one, so for the token
  \<open>USE="a=b c"\<close> it stores the single empty string under \<open>USE\<close>, not \<open>a=b\<close> and \<open>c\<close>.
\<close>

theorem equals_sign_in_value:
  \<open>parse_update_details [''[ebuild   R   ] a/b-1.0::gentoo [0.9::gentoo] USE="a=b c"''] =
   Inr [\<lparr>package_type = ''ebuild'', package_name = ''a/b'',
         new_version = Some ''1.0'', old_version = Some ''0.9'',
         update_status = ''ReEmerge'', repo = Some ''gentoo'',
         attributes = [(''USE'', ListVal [''''])]\<rparr>]\<close>
  by code_simp

section \<open>Indexing, splitting and the builders\<close>

lemma index_0: "index xs 0 = (if xs = [] then Inl IndexError else Inr (xs ! 0))"
  by (simp add: index_def)

lemma index_1: "index xs 1 = (if 2 \<le> length xs then Inr (xs ! 1) else Inl IndexError)"
  by (auto simp add: index_def)

lemma index_2: "index xs 2 = (if 3 \<le> length xs then Inr (xs ! 2) else Inl IndexError)"
  by (auto simp add: index_def)

lemma index_last: "index xs (- 1) = (if xs = [] then Inl IndexError else Inr (last xs))"
  by (cases xs rule: rev_cases) (auto simp add: index_def)

lemma split_from_nonempty: "split_from sep cur s \<noteq> []"
  by (induction sep cur s rule: split_from.induct) auto

lemma split_from_two:
  "sep \<noteq> [] \<Longrightarrow> (2 \<le> length (split_from sep cur s)) = py_in sep s"
proof (induction sep cur s rule: split_from.induct)
  case (1 sep cur)
  then show ?case by simp
next
  case (2 sep cur c cs)
  show ?case
  proof (cases "starts_with sep (c # cs)")
    case True
    have "1 \<le> length (split_from sep [] (drop (length sep - 1) cs))"
      using split_from_nonempty [of sep "[]" "drop (length sep - 1) cs"]
      by (cases "split_from sep [] (drop (length sep - 1) cs)") auto
    with True show ?thesis by simp
  next
    case False
    with 2 show ?thesis by simp
  qed
qed

lemma py_split_two: "sep \<noteq> [] \<Longrightarrow> (2 \<le> length (py_split sep s)) = py_in sep s"
  by (simp add: py_split_def split_from_two)

lemma py_split_nonempty: "py_split sep s \<noteq> []"
  by (simp add: py_split_def split_from_nonempty)

lemma starts_with_prefix: "starts_with (a @ b) s \<Longrightarrow> starts_with a s"
proof (induction a arbitrary: s)
  case Nil
  show ?case by simp
next
  case (Cons x a)
  then show ?case by (cases s) auto
qed

lemma py_in_prefix: "py_in (a @ b) s \<Longrightarrow> a \<noteq> [] \<Longrightarrow> py_in a s"
  by (induction s) (auto dest: starts_with_prefix)

lemma ebuild_attributes_returns: "\<exists>info'. ebuild_attributes info toks = Inr info'"
proof (induction toks arbitrary: info)
  case Nil
  show ?case by simp
next
  case (Cons var rest)
  show ?case
  proof (cases "py_in [CHR ''='', dquote] var")
    case True
    then have "py_in ''='' var"
      using py_in_prefix [of "''=''" "[dquote]" var] by simp
    then have "2 \<le> length (py_split ''='' var)"
      by (simp add: py_split_two)
    with True Cons.IH show ?thesis
      by (simp add: index_0 index_1 and_then_def py_split_nonempty)
  next
    case False
    with Cons.IH show ?thesis by simp
  qed
qed

lemma parse_package_ebuild_cases:
  "if 3 \<le> length sps \<and> py_in ''::'' (sps ! 1)
   then \<exists>p. parse_package_ebuild sps = Inr p
   else parse_package_ebuild sps = Inl IndexError"
proof (cases "3 \<le> length sps \<and> py_in ''::'' (sps ! 1)")
  case True
  then have l: "sps \<noteq> []" "2 \<le> length sps" "3 \<le> length sps" by auto
  from True have s: "2 \<le> length (py_split ''::'' (sps ! 1))"
    by (simp add: py_split_two)
  show ?thesis
    using True l s ebuild_attributes_returns
    by (simp add: parse_package_ebuild_def index_0 index_1 index_2 and_then_def
        py_split_nonempty Let_def)
next
  case False
  show ?thesis
  proof (cases "2 \<le> length sps")
    case a: True
    then have ne: "sps \<noteq> []" by auto
    show ?thesis
    proof (cases "py_in ''::'' (sps ! 1)")
      case True
      with False have "\<not> 3 \<le> length sps" by simp
      with True a ne show ?thesis
        by (simp add: parse_package_ebuild_def index_0 index_1 index_2 and_then_def
            py_split_nonempty py_split_two Let_def)
    next
      case b: False
      then have "\<not> 2 \<le> length (py_split ''::'' (sps ! 1))"
        by (simp add: py_split_two)
      with b a ne show ?thesis
        by (simp add: parse_package_ebuild_def index_0 index_1 and_then_def)
    qed
  next
    case b: False
    then show ?thesis
      by (simp add: parse_package_ebuild_def index_0 index_1 and_then_def)
  qed
qed

lemma parse_package_blocks_cases:
  "if 2 \<le> length sps then \<exists>p. parse_package_blocks sps = Inr p
   else parse_package_blocks sps = Inl IndexError"
  by (auto simp add: parse_package_blocks_def index_0 index_1 index_last and_then_def)

lemma parse_package_uninstall_cases:
  "if 2 \<le> length sps \<and> py_in ''::'' (sps ! 1)
   then \<exists>p. parse_package_uninstall sps = Inr p
   else parse_package_uninstall sps = Inl IndexError"
  by (auto simp add: parse_package_uninstall_def index_0 index_1 and_then_def
      py_split_nonempty py_split_two [symmetric])

section \<open>\<open>parse_update_details\<close> line by line\<close>

lemma tokens_from_nonempty: "t \<noteq> [] \<or> s \<noteq> [] \<Longrightarrow> tokens_from q b t s \<noteq> []"
  by (induction s arbitrary: q b t) auto

lemma parse_nonempty: "s \<noteq> [] \<Longrightarrow> parse_package_string s \<noteq> []"
  by (simp add: parse_tokens_from tokens_from_nonempty)

lemma re_search_Nil: "re_search opn close [] = False"
  by (simp add: match_here_def)

lemma package_line_nonempty: "package_line l \<Longrightarrow> l \<noteq> []"
  by (cases l) (simp_all add: package_line_def match_here_def)

lemma package_of_cases:
  assumes "line \<noteq> []"
  shows "if builder_ready line then \<exists>r. package_of line = Inr r
         else package_of line = Inl IndexError"
proof -
  let ?sps = "parse_package_string line"
  have ne: "?sps \<noteq> []" using assms by (rule parse_nonempty)
  show ?thesis
    using ne parse_package_ebuild_cases [of ?sps] parse_package_blocks_cases [of ?sps]
      parse_package_uninstall_cases [of ?sps]
    by (auto simp add: package_of_def builder_ready_def Let_def index_0 and_then_def
        split: if_splits)
qed

lemma packages_loop_cases:
  "list_all (\<lambda>l. l \<noteq> []) ls \<Longrightarrow>
     (if list_all builder_ready ls then \<exists>pkgs. packages_loop acc ls = Inr pkgs
      else packages_loop acc ls = Inl IndexError)"
proof (induction ls arbitrary: acc)
  case Nil
  show ?case by simp
next
  case (Cons l ls)
  then have l: "l \<noteq> []" and ls: "list_all (\<lambda>l. l \<noteq> []) ls" by simp_all
  show ?case
  proof (cases "builder_ready l")
    case True
    with package_of_cases [OF l] obtain r where r: "package_of l = Inr r" by auto
    show ?thesis
      using Cons.IH [OF ls, of "case r of None \<Rightarrow> acc | Some p \<Rightarrow> acc @ [p]"] True r
      by (simp add: and_then_def)
  next
    case False
    with package_of_cases [OF l] have "package_of l = Inl IndexError" by simp
    with False show ?thesis by (simp add: and_then_def)
  qed
qed

text \<open>
  C2 (as the code has it). \<open>parse_update_details\<close> has no recovery from a short line. It
  returns its records exactly when every package line has the tokens its builder reads by
  position: at least three tokens with \<open>::\<close> in the second for an ebuild line, at least
  two tokens for a blocks line, at least two tokens with \<open>::\<close> in the second for an
  uninstall line. On any other input the call ends with \<open>IndexError\<close>. Lines of no known
  variant never raise.
\<close>

theorem raises_only_on_short_lines:
  "if list_all builder_ready (filter package_line lines)
   then \<exists>pkgs. parse_update_details lines = Inr pkgs
   else parse_update_details lines = Inl IndexError"
proof -
  have "list_all (\<lambda>l. l \<noteq> []) (filter package_line lines)"
    by (simp add: list_all_iff package_line_nonempty)
  from packages_loop_cases [OF this, of "[]"] show ?thesis
    by (simp add: parse_update_details_def)
qed

text \<open>
  C2 (as stated) fails: an ebuild line cut after its status token, and an uninstall line
  whose second token has no \<open>::\<close>, both end the call with \<open>IndexError\<close>.
\<close>

theorem truncated_line_raises:
  "parse_update_details [''[ebuild U]''] = Inl IndexError
   \<and> parse_update_details [''[uninstall     ] perl-core/Compress-Raw-Zlib-2.202.0''] =
       Inl IndexError"
  by code_simp

lemma packages_loop_gather:
  "packages_loop acc ls =
     and_then (gather (map package_of ls)) (\<lambda>xs. Inr (acc @ xs))"
proof (induction ls arbitrary: acc)
  case Nil
  show ?case by (simp add: and_then_def)
next
  case (Cons l ls)
  show ?case
    by (simp add: Cons.IH and_then_def split: sum.splits option.splits)
qed

lemma parse_update_details_gather:
  "parse_update_details lines = gather (map package_of (filter package_line lines))"
  by (simp add: parse_update_details_def packages_loop_gather and_then_def split: sum.splits)

lemma gather_Inr:
  "gather rs = Inr xs \<Longrightarrow>
     xs = List.map_filter (\<lambda>r. case r of Inl e \<Rightarrow> None | Inr x \<Rightarrow> x) rs"
proof (induction rs arbitrary: xs)
  case Nil
  then show ?case by (simp add: List.map_filter_simps)
next
  case (Cons r rs)
  then show ?case
    by (auto simp add: and_then_def List.map_filter_simps split: sum.splits option.splits)
qed

lemma starts_with_iff: "starts_with p s = (\<exists>r. s = p @ r)"
proof (induction p arbitrary: s)
  case Nil
  show ?case by simp
next
  case (Cons x p)
  then show ?case by (cases s) auto
qed

lemma find_close_iff:
  "find_close close s = (\<exists>m b. s = m @ close @ b \<and> CHR 0x0A \<notin> set m)"
proof (induction s)
  case Nil
  show ?case by (cases close) auto
next
  case (Cons c cs)
  show ?case
  proof
    assume "find_close close (c # cs)"
    then consider "starts_with close (c # cs)" | "c \<noteq> CHR 0x0A" "find_close close cs"
      by auto
    then show "\<exists>m b. c # cs = m @ close @ b \<and> CHR 0x0A \<notin> set m"
    proof cases
      case 1
      then obtain r where "c # cs = close @ r" by (auto simp add: starts_with_iff)
      then have "c # cs = [] @ close @ r \<and> CHR 0x0A \<notin> set []" by simp
      then show ?thesis by blast
    next
      case 2
      with Cons.IH obtain m b where "cs = m @ close @ b" "CHR 0x0A \<notin> set m" by auto
      with 2 have "c # cs = (c # m) @ close @ b \<and> CHR 0x0A \<notin> set (c # m)" by simp
      then show ?thesis by blast
    qed
  next
    assume "\<exists>m b. c # cs = m @ close @ b \<and> CHR 0x0A \<notin> set m"
    then obtain m b where mb: "c # cs = m @ close @ b" "CHR 0x0A \<notin> set m" by auto
    show "find_close close (c # cs)"
    proof (cases m)
      case Nil
      with mb have "starts_with close (c # cs)" by (auto simp add: starts_with_iff)
      then show ?thesis by simp
    next
      case (Cons x m')
      with mb have "c \<noteq> CHR 0x0A" "cs = m' @ close @ b" "CHR 0x0A \<notin> set m'" by auto
      with Cons.IH show ?thesis by auto
    qed
  qed
qed

lemma match_here_iff:
  "match_here opn close s =
     (\<exists>m b. s = opn @ m @ close @ b \<and> m \<noteq> [] \<and> CHR 0x0A \<notin> set m)"
proof
  assume "match_here opn close s"
  then obtain r c cs where s: "s = opn @ r" and r: "r = c # cs" and c: "c \<noteq> CHR 0x0A"
    and f: "find_close close cs"
    by (auto simp add: match_here_def starts_with_iff split: list.splits)
  from f obtain m b where "cs = m @ close @ b" "CHR 0x0A \<notin> set m"
    by (auto simp add: find_close_iff)
  with s r c have "s = opn @ (c # m) @ close @ b \<and> c # m \<noteq> [] \<and> CHR 0x0A \<notin> set (c # m)"
    by simp
  then show "\<exists>m b. s = opn @ m @ close @ b \<and> m \<noteq> [] \<and> CHR 0x0A \<notin> set m" by blast
next
  assume "\<exists>m b. s = opn @ m @ close @ b \<and> m \<noteq> [] \<and> CHR 0x0A \<notin> set m"
  then obtain m b where s: "s = opn @ m @ close @ b" and m: "m \<noteq> []" "CHR 0x0A \<notin> set m"
    by auto
  from m obtain c m' where cm: "m = c # m'" by (cases m) auto
  with m have "c \<noteq> CHR 0x0A" "find_close close (m' @ close @ b)"
    by (auto simp add: find_close_iff)
  with s cm show "match_here opn close s"
    by (simp add: match_here_def starts_with_iff)
qed

lemma re_search_iff:
  "re_search opn close s =
     (\<exists>a m b. s = a @ opn @ m @ close @ b \<and> m \<noteq> [] \<and> CHR 0x0A \<notin> set m)"
proof (induction s)
  case Nil
  show ?case by (auto simp add: match_here_iff)
next
  case (Cons c cs)
  show ?case
  proof
    assume "re_search opn close (c # cs)"
    then consider "match_here opn close (c # cs)" | "re_search opn close cs" by auto
    then show "\<exists>a m b. c # cs = a @ opn @ m @ close @ b \<and> m \<noteq> [] \<and> CHR 0x0A \<notin> set m"
    proof cases
      case 1
      then obtain m b where "c # cs = [] @ opn @ m @ close @ b" "m \<noteq> []" "CHR 0x0A \<notin> set m"
        by (auto simp add: match_here_iff)
      then show ?thesis by blast
    next
      case 2
      with Cons.IH obtain a m b where "cs = a @ opn @ m @ close @ b" "m \<noteq> []" "CHR 0x0A \<notin> set m"
        by auto
      then have "c # cs = (c # a) @ opn @ m @ close @ b \<and> m \<noteq> [] \<and> CHR 0x0A \<notin> set m"
        by simp
      then show ?thesis by blast
    qed
  next
    assume "\<exists>a m b. c # cs = a @ opn @ m @ close @ b \<and> m \<noteq> [] \<and> CHR 0x0A \<notin> set m"
    then obtain a m b where s: "c # cs = a @ opn @ m @ close @ b" and m: "m \<noteq> []" "CHR 0x0A \<notin> set m"
      by auto
    show "re_search opn close (c # cs)"
    proof (cases a)
      case Nil
      with s m have "match_here opn close (c # cs)"
        by (auto simp add: match_here_iff)
      then show ?thesis by simp
    next
      case (Cons x a')
      with s have "cs = a' @ opn @ m @ close @ b" by simp
      with m Cons.IH have "re_search opn close cs" by auto
      then show ?thesis by simp
    qed
  qed
qed

lemma package_line_iff: "package_line l = (bracketed l \<and> l \<noteq> ''[ ok ]'')"
  by (simp add: package_line_def bracketed_def re_search_iff)

lemma package_of_unknown:
  assumes "l \<noteq> []"
    and "\<not> py_in ''ebuild'' (hd (parse_package_string l))"
    and "\<not> py_in ''blocks'' (hd (parse_package_string l))"
    and "\<not> py_in ''uninstall'' (hd (parse_package_string l))"
  shows "package_of l = Inr None"
proof -
  have "parse_package_string l \<noteq> []" using assms(1) by (rule parse_nonempty)
  then have "hd (parse_package_string l) = parse_package_string l ! 0"
    by (simp add: hd_conv_nth)
  with assms \<open>parse_package_string l \<noteq> []\<close> show ?thesis
    by (simp add: package_of_def Let_def index_0 and_then_def)
qed

lemma package_of_dispatch:
  assumes "l \<noteq> []"
  shows "package_of l =
          (if py_in ''ebuild'' (hd (parse_package_string l))
           then and_then (parse_package_ebuild (parse_package_string l)) (\<lambda>p. Inr (Some p))
           else if py_in ''blocks'' (hd (parse_package_string l))
           then and_then (parse_package_blocks (parse_package_string l)) (\<lambda>p. Inr (Some p))
           else if py_in ''uninstall'' (hd (parse_package_string l))
           then and_then (parse_package_uninstall (parse_package_string l))
                  (\<lambda>p. Inr (Some p))
           else Inr None)"
proof -
  have ne: "parse_package_string l \<noteq> []" using assms by (rule parse_nonempty)
  then have "hd (parse_package_string l) = parse_package_string l ! 0"
    by (simp add: hd_conv_nth)
  with ne show ?thesis
    by (simp add: package_of_def Let_def index_0 and_then_def)
qed

text \<open>
  C7. \<open>parse_update_details\<close> works on exactly the lines that hold a bracketed, non-empty
  piece of text and are not the line \<open>[ ok ]\<close>: its result is the results of those lines
  put together in their order. Each such line is tokenized and its first token chooses
  the builder: the ebuild builder when it holds \<open>ebuild\<close>, otherwise the blocks builder
  when it holds \<open>blocks\<close>, otherwise the uninstall builder when it holds \<open>uninstall\<close>,
  and the line gives that builder's record (or its error). A line whose first token holds
  none of the three gives no record and no error. When the call returns, the records are
  those of the lines in the order of the lines, none reordered and none removed.
\<close>

theorem package_lines_in_order:
  "package_line l = (bracketed l \<and> l \<noteq> ''[ ok ]'')
   \<and> parse_update_details lines = gather (map package_of (filter package_line lines))
   \<and> (package_line l \<longrightarrow>
        package_of l =
          (if py_in ''ebuild'' (hd (parse_package_string l))
           then and_then (parse_package_ebuild (parse_package_string l)) (\<lambda>p. Inr (Some p))
           else if py_in ''blocks'' (hd (parse_package_string l))
           then and_then (parse_package_blocks (parse_package_string l)) (\<lambda>p. Inr (Some p))
           else if py_in ''uninstall'' (hd (parse_package_string l))
           then and_then (parse_package_uninstall (parse_package_string l))
                  (\<lambda>p. Inr (Some p))
           else Inr None))
   \<and> (package_line l
        \<and> \<not> py_in ''ebuild'' (hd (parse_package_string l))
        \<and> \<not> py_in ''blocks'' (hd (parse_package_string l))
        \<and> \<not> py_in ''uninstall'' (hd (parse_package_string l))
       \<longrightarrow> package_of l = Inr None)
   \<and> (parse_update_details lines = Inr pkgs
       \<longrightarrow> pkgs = List.map_filter (\<lambda>r. case r of Inl e \<Rightarrow> None | Inr x \<Rightarrow> x)
                    (map package_of (filter package_line lines)))"
proof (intro conjI impI)
  show "package_line l = (bracketed l \<and> l \<noteq> ''[ ok ]'')"
    by (rule package_line_iff)
  show "parse_update_details lines = gather (map package_of (filter package_line lines))"
    by (rule parse_update_details_gather)
next
  assume "package_line l"
  then have "l \<noteq> []" by (rule package_line_nonempty)
  then show "package_of l =
          (if py_in ''ebuild'' (hd (parse_package_string l))
           then and_then (parse_package_ebuild (parse_package_string l)) (\<lambda>p. Inr (Some p))
           else if py_in ''blocks'' (hd (parse_package_string l))
           then and_then (parse_package_blocks (parse_package_string l)) (\<lambda>p. Inr (Some p))
           else if py_in ''uninstall'' (hd (parse_package_string l))
           then and_then (parse_package_uninstall (parse_package_string l))
                  (\<lambda>p. Inr (Some p))
           else Inr None)"
    by (rule package_of_dispatch)
next
  assume a: "package_line l
        \<and> \<not> py_in ''ebuild'' (hd (parse_package_string l))
        \<and> \<not> py_in ''blocks'' (hd (parse_package_string l))
        \<and> \<not> py_in ''uninstall'' (hd (parse_package_string l))"
  then have "l \<noteq> []" by (simp add: package_line_nonempty)
  with a show "package_of l = Inr None" by (simp add: package_of_unknown)
next
  assume "parse_update_details lines = Inr pkgs"
  then show "pkgs = List.map_filter (\<lambda>r. case r of Inl e \<Rightarrow> None | Inr x \<Rightarrow> x)
                    (map package_of (filter package_line lines))"
    by (simp add: parse_update_details_gather gather_Inr)
qed

theorem package_lines_in_order_witness:
  "bracketed ''[foo] bar'' \<and> package_of ''[foo] bar'' = Inr None
   \<and> package_of
        ''[ebuild     U  ] sys-devel/gnuconfig-20230731::gentoo [20230121::gentoo] 72 KiB'' =
       Inr (Some \<lparr>package_type = ''ebuild'', package_name = ''sys-devel/gnuconfig'',
         new_version = Some ''20230731'', old_version = Some ''20230121'',
         update_status = ''Update'', repo = Some ''gentoo'', attributes = []\<rparr>)
   \<and> package_of ''[blocks b ] <a/b-1 (x is blocking c/d-2)'' =
       Inr (Some \<lparr>package_type = ''blocks'', package_name = ''a/b-1'', new_version = None,
         old_version = None, update_status = ''[blocks b ]'', repo = None,
         attributes = [(''blocked_package'', StrVal ''c/d-2'')]\<rparr>)
   \<and> List.map_filter (\<lambda>r. case r of Inl e \<Rightarrow> None | Inr x \<Rightarrow> x)
        (map package_of (filter package_line
          [''[ ok ]'', ''hello'',
           ''[ebuild     U  ] sys-devel/gnuconfig-20230731::gentoo [20230121::gentoo] 72 KiB'',
           ''[uninstall ] a/b::gentoo'', ''[foo] bar'',
           ''[blocks b ] <a/b-1 (x is blocking c/d-2)'',
           ''[uninstall ] a/b::gentoo''])) =
       [\<lparr>package_type = ''ebuild'', package_name = ''sys-devel/gnuconfig'',
         new_version = Some ''20230731'', old_version = Some ''20230121'',
         update_status = ''Update'', repo = Some ''gentoo'', attributes = []\<rparr>,
        \<lparr>package_type = ''uninstall'', package_name = ''a/b'', new_version = None,
         old_version = None, update_status = ''[uninstall ]'', repo = Some ''gentoo'',
         attributes = [(''uninstalled_package'', StrVal ''a/b'')]\<rparr>,
        \<lparr>package_type = ''blocks'', package_name = ''a/b-1'', new_version = None,
         old_version = None, update_status = ''[blocks b ]'', repo = None,
         attributes = [(''blocked_package'', StrVal ''c/d-2'')]\<rparr>,
        \<lparr>package_type = ''uninstall'', package_name = ''a/b'', new_version = None,
         old_version = None, update_status = ''[uninstall ]'', repo = Some ''gentoo'',
         attributes = [(''uninstalled_package'', StrVal ''a/b'')]\<rparr>]"
proof -
  let ?l = "''[foo] bar''"
  let ?le = "''[ebuild     U  ] sys-devel/gnuconfig-20230731::gentoo [20230121::gentoo] 72 KiB''"
  let ?lb = "''[blocks b ] <a/b-1 (x is blocking c/d-2)''"
  let ?lines = "[''[ ok ]'', ''hello'', ?le, ''[uninstall ] a/b::gentoo'', ?l, ?lb,
           ''[uninstall ] a/b::gentoo'']"
  let ?e = "\<lparr>package_type = ''ebuild'', package_name = ''sys-devel/gnuconfig'',
         new_version = Some ''20230731'', old_version = Some ''20230121'',
         update_status = ''Update'', repo = Some ''gentoo'', attributes = []\<rparr>"
  let ?b = "\<lparr>package_type = ''blocks'', package_name = ''a/b-1'', new_version = None,
         old_version = None, update_status = ''[blocks b ]'', repo = None,
         attributes = [(''blocked_package'', StrVal ''c/d-2'')]\<rparr>"
  let ?u = "\<lparr>package_type = ''uninstall'', package_name = ''a/b'', new_version = None,
         old_version = None, update_status = ''[uninstall ]'', repo = Some ''gentoo'',
         attributes = [(''uninstalled_package'', StrVal ''a/b'')]\<rparr>"
  have pl: "package_line ?l" by code_simp
  have tk: "\<not> py_in ''ebuild'' (hd (parse_package_string ?l))"
    "\<not> py_in ''blocks'' (hd (parse_package_string ?l))"
    "\<not> py_in ''uninstall'' (hd (parse_package_string ?l))"
    by code_simp+
  have ple: "package_line ?le" by code_simp
  have de: "(if py_in ''ebuild'' (hd (parse_package_string ?le))
           then and_then (parse_package_ebuild (parse_package_string ?le)) (\<lambda>p. Inr (Some p))
           else if py_in ''blocks'' (hd (parse_package_string ?le))
           then and_then (parse_package_blocks (parse_package_string ?le)) (\<lambda>p. Inr (Some p))
           else if py_in ''uninstall'' (hd (parse_package_string ?le))
           then and_then (parse_package_uninstall (parse_package_string ?le))
                  (\<lambda>p. Inr (Some p))
           else Inr None) = Inr (Some ?e)"
    by code_simp
  have plb: "package_line ?lb" by code_simp
  have db: "(if py_in ''ebuild'' (hd (parse_package_string ?lb))
           then and_then (parse_package_ebuild (parse_package_string ?lb)) (\<lambda>p. Inr (Some p))
           else if py_in ''blocks'' (hd (parse_package_string ?lb))
           then and_then (parse_package_blocks (parse_package_string ?lb)) (\<lambda>p. Inr (Some p))
           else if py_in ''uninstall'' (hd (parse_package_string ?lb))
           then and_then (parse_package_uninstall (parse_package_string ?lb))
                  (\<lambda>p. Inr (Some p))
           else Inr None) = Inr (Some ?b)"
    by code_simp
  have ev: "parse_update_details ?lines = Inr [?e, ?u, ?b, ?u]" by code_simp
  note th = package_lines_in_order [of ?l ?lines "[?e, ?u, ?b, ?u]"]
  from th pl have 1: "bracketed ?l" by blast
  from th pl tk have 2: "package_of ?l = Inr None" by blast
  from package_lines_in_order [of ?le ?lines "[?e, ?u, ?b, ?u]"] ple
  have "package_of ?le =
          (if py_in ''ebuild'' (hd (parse_package_string ?le))
           then and_then (parse_package_ebuild (parse_package_string ?le)) (\<lambda>p. Inr (Some p))
           else if py_in ''blocks'' (hd (parse_package_string ?le))
           then and_then (parse_package_blocks (parse_package_string ?le)) (\<lambda>p. Inr (Some p))
           else if py_in ''uninstall'' (hd (parse_package_string ?le))
           then and_then (parse_package_uninstall (parse_package_string ?le))
                  (\<lambda>p. Inr (Some p))
           else Inr None)"
    by blast
  from this de have 3: "package_of ?le = Inr (Some ?e)" by (rule trans)
  from package_lines_in_order [of ?lb ?lines "[?e, ?u, ?b, ?u]"] plb
  have "package_of ?lb =
          (if py_in ''ebuild'' (hd (parse_package_string ?lb))
           then and_then (parse_package_ebuild (parse_package_string ?lb)) (\<lambda>p. Inr (Some p))
           else if py_in ''blocks'' (hd (parse_package_string ?lb))
           then and_then (parse_package_blocks (parse_package_string ?lb)) (\<lambda>p. Inr (Some p))
           else if py_in ''uninstall'' (hd (parse_package_string ?lb))
           then and_then (parse_package_uninstall (parse_package_string ?lb))
                  (\<lambda>p. Inr (Some p))
           else Inr None)"
    by blast
  from this db have 4: "package_of ?lb = Inr (Some ?b)" by (rule trans)
  from th ev have 5: "[?e, ?u, ?b, ?u] =
      List.map_filter (\<lambda>r. case r of Inl e \<Rightarrow> None | Inr x \<Rightarrow> x)
        (map package_of (filter package_line ?lines))" by blast
  from 1 2 3 4 5 show ?thesis by simp
qed

section \<open>What the builders guarantee of a record\<close>

lemma add_attributes_one:
  "attributes (add_attributes info [(k, v)]) = AList.update k v (attributes info)"
  "package_type (add_attributes info d) = package_type info"
  "package_name (add_attributes info d) = package_name info"
  "new_version (add_attributes info d) = new_version info"
  "old_version (add_attributes info d) = old_version info"
  by (simp_all add: add_attributes_def)

lemma ebuild_attributes_keeps:
  "ebuild_attributes info toks = Inr r \<Longrightarrow> distinct (map fst (attributes info)) \<Longrightarrow>
     distinct (map fst (attributes r)) \<and> package_name r = package_name info
     \<and> package_type r = package_type info"
proof (induction toks arbitrary: info)
  case Nil
  then show ?case by simp
next
  case (Cons var rest)
  show ?case
  proof (cases "py_in [CHR ''='', dquote] var")
    case False
    with Cons show ?thesis by simp
  next
    case True
    with Cons.prems obtain k v where
      r: "ebuild_attributes
            (add_attributes info [(k, ListVal (py_split '' '' (butlast (drop 1 v))))]) rest = Inr r"
      by (auto simp add: and_then_def split: sum.splits)
    have "distinct (map fst (attributes
            (add_attributes info [(k, ListVal (py_split '' '' (butlast (drop 1 v))))])))"
      using Cons.prems(2) by (simp add: add_attributes_one distinct_update)
    from Cons.IH [OF r this] show ?thesis by (simp add: add_attributes_one)
  qed
qed

lemma parse_package_ebuild_name:
  assumes "parse_package_ebuild sps = Inr r"
  shows "distinct (map fst (attributes r))
     \<and> package_type r = ''ebuild''
     \<and> package_name r = butlast (name_loop (py_split ''-'' (hd (py_split ''::'' (sps ! 1)))))"
proof -
  let ?nm = "name_loop (py_split ''-'' (hd (py_split ''::'' (sps ! 1))))"
  have hd0: "\<And>xs::string list. xs \<noteq> [] \<Longrightarrow> xs ! 0 = hd xs" by (simp add: hd_conv_nth)
  from assms obtain info where
    e: "ebuild_attributes info sps = Inr r" and
    i: "attributes info = []" "package_name info = butlast ?nm" "package_type info = ''ebuild''"
    by (auto simp add: parse_package_ebuild_def and_then_def index_0 index_1 index_2 Let_def
        new_PackageInfo_def py_split_nonempty hd0 split: sum.splits if_splits)
  from ebuild_attributes_keeps [OF e] i show ?thesis by simp
qed

lemma split_from_single:
  "c \<notin> set cur \<Longrightarrow> p \<in> set (split_from [c] cur s) \<Longrightarrow> c \<notin> set p"
proof (induction "[c]" cur s rule: split_from.induct)
  case (1 cur)
  then show ?case by simp
next
  case (2 cur x xs)
  then show ?case by (auto split: if_splits)
qed

lemma py_split_single: "p \<in> set (py_split [c] s) \<Longrightarrow> c \<notin> set p"
  using split_from_single [of c "[]" p s] by (simp add: py_split_def)

lemma butlast_joined:
  "nps \<noteq> [] \<Longrightarrow>
     butlast (concat (map (\<lambda>p. p @ ''-'') nps)) =
       concat (map (\<lambda>p. p @ ''-'') (butlast nps)) @ last nps"
proof (induction nps rule: rev_induct)
  case Nil
  then show ?case by simp
next
  case (snoc x xs)
  show ?case by (simp add: butlast_append)
qed

lemma joined_shape:
  assumes "nps \<noteq> []" "hd nps \<noteq> []" "last nps \<noteq> []"
    and "\<And>p. p \<in> set nps \<Longrightarrow> CHR ''-'' \<notin> set p"
  shows "butlast (concat (map (\<lambda>p. p @ ''-'') nps)) \<noteq> []
    \<and> hd (butlast (concat (map (\<lambda>p. p @ ''-'') nps))) \<noteq> CHR ''-''
    \<and> last (butlast (concat (map (\<lambda>p. p @ ''-'') nps))) \<noteq> CHR ''-''"
proof -
  let ?j = "butlast (concat (map (\<lambda>p. p @ ''-'') nps))"
  have j: "?j = concat (map (\<lambda>p. p @ ''-'') (butlast nps)) @ last nps"
    using assms(1) by (rule butlast_joined)
  have l: "last ?j = last (last nps)" using assms(3) by (simp add: j)
  have "last nps \<in> set nps" using assms(1) by simp
  then have "CHR ''-'' \<notin> set (last nps)" by (rule assms(4))
  with assms(3) have l': "last (last nps) \<noteq> CHR ''-''"
    using last_in_set by metis
  have "hd nps \<in> set nps" using assms(1) by simp
  then have "CHR ''-'' \<notin> set (hd nps)" by (rule assms(4))
  with assms(2) have h': "hd (hd nps) \<noteq> CHR ''-''"
    using hd_in_set by metis
  have h: "hd ?j = hd (hd nps)"
  proof (cases "butlast nps")
    case Nil
    then have "nps = [last nps]" using assms(1)
      by (metis append_butlast_last_id append_Nil)
    then have "hd nps = last nps" by (metis list.sel(1))
    with Nil show ?thesis by (simp add: j)
  next
    case (Cons y ys)
    then have "hd nps = y" using assms(1)
      by (metis append_butlast_last_id hd_append2 list.sel(1) list.distinct(1))
    with Cons assms(2) show ?thesis by (simp add: j)
  qed
  from assms(3) have "?j \<noteq> []" by (simp add: j)
  with l l' h h' show ?thesis by simp
qed

text \<open>
  C8 (as stated) fails: an ebuild line whose name-version text has only version-like
  parts gives a record with the empty name, and one whose text starts with a hyphen
  gives a name that starts with a hyphen.
\<close>

theorem empty_and_hyphen_led_names:
  "parse_update_details [''[ebuild   U ] 1.0::gentoo [0.9::gentoo]''] =
     Inr [\<lparr>package_type = ''ebuild'', package_name = [], new_version = Some ''1.0'',
           old_version = Some ''0.9'', update_status = ''Update'', repo = Some ''gentoo'',
           attributes = []\<rparr>]
   \<and> parse_update_details [''[ebuild   U ] -foo-1.0::gentoo [0.9::gentoo]''] =
     Inr [\<lparr>package_type = ''ebuild'', package_name = ''-foo'', new_version = Some ''1.0'',
           old_version = Some ''0.9'', update_status = ''Update'', repo = Some ''gentoo'',
           attributes = []\<rparr>]"
  by code_simp

text \<open>
  C8 (as the code has it). Every record a builder returns has unique attribute keys. A
  blocks record and an uninstall record have no new and no old version; their name is
  taken from the second token as it stands (without its first character, respectively up
  to \<open>::\<close>). The name of an ebuild record is the kept hyphen parts joined by hyphens;
  when there is such a part and the first and the last of them are non-empty, the name
  is non-empty and neither starts nor ends with a hyphen.
\<close>

theorem builder_invariants:
  "(parse_package_ebuild sps = Inr r \<longrightarrow>
      package_type r = ''ebuild'' \<and> distinct (map fst (attributes r)) \<and>
      package_name r = butlast (concat (map (\<lambda>p. p @ ''-'') (name_parts sps))) \<and>
      (name_parts sps \<noteq> [] \<and> hd (name_parts sps) \<noteq> [] \<and> last (name_parts sps) \<noteq> [] \<longrightarrow>
         package_name r \<noteq> [] \<and> hd (package_name r) \<noteq> CHR ''-''
         \<and> last (package_name r) \<noteq> CHR ''-''))
   \<and> (parse_package_blocks sps = Inr r \<longrightarrow>
      package_type r = ''blocks'' \<and> new_version r = None \<and> old_version r = None \<and>
      distinct (map fst (attributes r)) \<and> package_name r = drop 1 (sps ! 1))
   \<and> (parse_package_uninstall sps = Inr r \<longrightarrow>
      package_type r = ''uninstall'' \<and> new_version r = None \<and> old_version r = None \<and>
      distinct (map fst (attributes r)) \<and> package_name r = hd (py_split ''::'' (sps ! 1)))"
proof (intro conjI impI)
  assume e: "parse_package_ebuild sps = Inr r"
  note n = parse_package_ebuild_name [OF e]
  from n show "package_type r = ''ebuild''" by simp
  from n show "distinct (map fst (attributes r))" by simp
  from n show nm: "package_name r = butlast (concat (map (\<lambda>p. p @ ''-'') (name_parts sps)))"
    by (simp add: name_loop_filter name_parts_def)
  assume a: "name_parts sps \<noteq> [] \<and> hd (name_parts sps) \<noteq> [] \<and> last (name_parts sps) \<noteq> []"
  have "\<And>p. p \<in> set (name_parts sps) \<Longrightarrow> CHR ''-'' \<notin> set p"
    by (auto simp add: name_parts_def dest: py_split_single)
  with a have s: "butlast (concat (map (\<lambda>p. p @ ''-'') (name_parts sps))) \<noteq> []
    \<and> hd (butlast (concat (map (\<lambda>p. p @ ''-'') (name_parts sps)))) \<noteq> CHR ''-''
    \<and> last (butlast (concat (map (\<lambda>p. p @ ''-'') (name_parts sps)))) \<noteq> CHR ''-''"
    by (intro joined_shape) simp_all
  from s show "package_name r \<noteq> []" by (simp add: nm)
  from s show "hd (package_name r) \<noteq> CHR ''-''" by (simp add: nm)
  from s show "last (package_name r) \<noteq> CHR ''-''" by (simp add: nm)
next
  assume b: "parse_package_blocks sps = Inr r"
  then have r: "r = add_attributes
      (new_PackageInfo ''blocks'' (drop 1 (sps ! 1)) None None (sps ! 0) None)
      [(''blocked_package'', StrVal (butlast (last sps)))]"
    by (auto simp add: parse_package_blocks_def and_then_def index_0 index_1 index_last
        split: if_splits)
  show "package_type r = ''blocks''" by (simp add: r add_attributes_one new_PackageInfo_def)
  show "new_version r = None" by (simp add: r add_attributes_one new_PackageInfo_def)
  show "old_version r = None" by (simp add: r add_attributes_one new_PackageInfo_def)
  show "distinct (map fst (attributes r))"
    by (simp add: r add_attributes_one new_PackageInfo_def)
  show "package_name r = drop 1 (sps ! 1)"
    by (simp add: r add_attributes_one new_PackageInfo_def)
next
  assume u: "parse_package_uninstall sps = Inr r"
  have hd0: "\<And>xs::string list. xs \<noteq> [] \<Longrightarrow> xs ! 0 = hd xs" by (simp add: hd_conv_nth)
  from u obtain rp t0 where r: "r = add_attributes
      (new_PackageInfo ''uninstall'' (hd (py_split ''::'' (sps ! 1))) None None t0 (Some rp))
      [(''uninstalled_package'', StrVal (hd (py_split ''::'' (sps ! 1))))]"
    by (auto simp add: parse_package_uninstall_def and_then_def index_0 index_1
        py_split_nonempty hd0 split: if_splits)
  show "package_type r = ''uninstall''" by (simp add: r add_attributes_one new_PackageInfo_def)
  show "new_version r = None" by (simp add: r add_attributes_one new_PackageInfo_def)
  show "old_version r = None" by (simp add: r add_attributes_one new_PackageInfo_def)
  show "distinct (map fst (attributes r))"
    by (simp add: r add_attributes_one new_PackageInfo_def)
  show "package_name r = hd (py_split ''::'' (sps ! 1))"
    by (simp add: r add_attributes_one new_PackageInfo_def)
qed

theorem builder_invariants_witness:
  "(\<exists>r. parse_package_ebuild
          [''[ebuild     U  ]'', ''sys-devel/gnuconfig-20230731::gentoo'',
           ''[20230121::gentoo]'', ''72'', ''KiB''] = Inr r
        \<and> package_name r \<noteq> [] \<and> hd (package_name r) \<noteq> CHR ''-''
        \<and> last (package_name r) \<noteq> CHR ''-'' \<and> distinct (map fst (attributes r)))
   \<and> (\<exists>r. parse_package_blocks
          [''[blocks b      ]'', ''<perl-core/Compress-Raw-Zlib-2.204.1_rc'', ''is'',
           ''virtual/perl-Compress-Raw-Zlib-2.204.1_rc)''] = Inr r
        \<and> new_version r = None \<and> old_version r = None)
   \<and> (\<exists>r. parse_package_uninstall
          [''[uninstall     ]'', ''perl-core/Compress-Raw-Zlib-2.202.0::gentoo''] = Inr r
        \<and> new_version r = None \<and> old_version r = None)"
proof -
  let ?te = "[''[ebuild     U  ]'', ''sys-devel/gnuconfig-20230731::gentoo'',
           ''[20230121::gentoo]'', ''72'', ''KiB'']"
  let ?tb = "[''[blocks b      ]'', ''<perl-core/Compress-Raw-Zlib-2.204.1_rc'', ''is'',
           ''virtual/perl-Compress-Raw-Zlib-2.204.1_rc)'']"
  let ?tu = "[''[uninstall     ]'', ''perl-core/Compress-Raw-Zlib-2.202.0::gentoo'']"
  let ?re = "\<lparr>package_type = ''ebuild'', package_name = ''sys-devel/gnuconfig'',
         new_version = Some ''20230731'', old_version = Some ''20230121'',
         update_status = ''Update'', repo = Some ''gentoo'', attributes = []\<rparr>"
  let ?rb = "\<lparr>package_type = ''blocks'',
         package_name = ''perl-core/Compress-Raw-Zlib-2.204.1_rc'',
         new_version = None, old_version = None, update_status = ''[blocks b      ]'',
         repo = None,
         attributes = [(''blocked_package'',
           StrVal ''virtual/perl-Compress-Raw-Zlib-2.204.1_rc'')]\<rparr>"
  let ?ru = "\<lparr>package_type = ''uninstall'',
         package_name = ''perl-core/Compress-Raw-Zlib-2.202.0'',
         new_version = None, old_version = None, update_status = ''[uninstall     ]'',
         repo = Some ''gentoo'',
         attributes = [(''uninstalled_package'',
           StrVal ''perl-core/Compress-Raw-Zlib-2.202.0'')]\<rparr>"
  have e: "parse_package_ebuild ?te = Inr ?re" by code_simp
  have b: "parse_package_blocks ?tb = Inr ?rb" by code_simp
  have u: "parse_package_uninstall ?tu = Inr ?ru" by code_simp
  have np: "name_parts ?te = [''sys'', ''devel/gnuconfig'']" by code_simp
  have n: "name_parts ?te \<noteq> [] \<and> hd (name_parts ?te) \<noteq> [] \<and> last (name_parts ?te) \<noteq> []"
    by (simp add: np)
  from builder_invariants [of ?te ?re] e n
  have 1: "package_name ?re \<noteq> [] \<and> hd (package_name ?re) \<noteq> CHR ''-''
        \<and> last (package_name ?re) \<noteq> CHR ''-'' \<and> distinct (map fst (attributes ?re))"
    by blast
  from builder_invariants [of ?tb ?rb] b
  have 2: "new_version ?rb = None \<and> old_version ?rb = None" by blast
  from builder_invariants [of ?tu ?ru] u
  have 3: "new_version ?ru = None \<and> old_version ?ru = None" by blast
  from e 1 b 2 u 3 show ?thesis by blast
qed

section \<open>Tokenizing twice, and joining the tokens\<close>

lemma isspace_counts:
  "isspace c \<Longrightarrow> quotes_after q c = q \<and> brackets_after b c = b"
  by (auto simp add: isspace_def quotes_after_def brackets_after_def)

lemma isspace_space: "isspace (CHR '' '')"
  by (simp add: isspace_def)

lemma counts_Cons:
  "q + quotes_in (c # s) = quotes_after q c + quotes_in s"
  "b + depth_in (c # s) = brackets_after b c + depth_in s"
  by (simp_all add: quotes_in_def depth_in_def quotes_after_def brackets_after_def)

lemma counts_append:
  "quotes_in (u @ v) = quotes_in u + quotes_in v"
  "depth_in (u @ v) = depth_in u + depth_in v"
  by (simp_all add: quotes_in_def depth_in_def)

lemma counts_snoc:
  "quotes_in (t @ [c]) = quotes_after (quotes_in t) c"
  "depth_in (t @ [c]) = brackets_after (depth_in t) c"
  by (simp_all add: quotes_in_def depth_in_def quotes_after_def brackets_after_def)

lemma after_add: "quotes_after (a + k) c = a + quotes_after k c"
  by (simp add: quotes_after_def)

lemma counts_Nil: "quotes_in [] = 0" "depth_in [] = 0"
  by (simp_all add: quotes_in_def depth_in_def)

lemma counts_spaces:
  "list_all isspace l \<Longrightarrow> quotes_in l = 0 \<and> depth_in l = 0"
proof (induction l)
  case Nil
  show ?case by (simp add: counts_Nil)
next
  case (Cons c l)
  then have "isspace c" and r: "quotes_in l = 0 \<and> depth_in l = 0" by simp_all
  from isspace_counts [OF \<open>isspace c\<close>, of 0 0] r
  show ?case using counts_Cons [of 0 c l] counts_Cons(2) [of 0 c l] by simp
qed

lemma strip_decomp:
  "\<exists>l r. s = l @ py_strip s @ r \<and> list_all isspace l \<and> list_all isspace r"
proof -
  let ?d = "dropWhile isspace s"
  have 1: "s = takeWhile isspace s @ ?d" by simp
  have "?d = rev (dropWhile isspace (rev ?d)) @ rev (takeWhile isspace (rev ?d))"
    by (metis rev_append rev_rev_ident takeWhile_dropWhile_id)
  then have 2: "?d = py_strip s @ rev (takeWhile isspace (rev ?d))"
    by (simp add: py_strip_def)
  have 3: "list_all isspace (takeWhile isspace s)"
    by (simp add: list_all_iff) (meson set_takeWhileD)
  have 4: "list_all isspace (rev (takeWhile isspace (rev ?d)))"
    by (simp add: list_all_iff) (meson set_takeWhileD)
  from 1 2 have "s = takeWhile isspace s @ py_strip s @ rev (takeWhile isspace (rev ?d))"
    by metis
  with 3 4 show ?thesis by blast
qed

lemma strip_edges:
  "py_strip s \<noteq> [] \<Longrightarrow> \<not> isspace (hd (py_strip s)) \<and> \<not> isspace (last (py_strip s))"
proof -
  assume ne: "py_strip s \<noteq> []"
  let ?d = "dropWhile isspace s"
  let ?e = "dropWhile isspace (rev ?d)"
  from ne have e: "?e \<noteq> []" by (simp add: py_strip_def)
  then have "\<not> isspace (hd ?e)" by (rule hd_dropWhile)
  then have l: "\<not> isspace (last (py_strip s))" using e
    by (simp add: py_strip_def last_rev)
  from e have "rev ?d \<noteq> []" by (metis dropWhile.simps(1))
  then have d: "?d \<noteq> []" by simp
  then have hd: "\<not> isspace (hd ?d)" by (rule hd_dropWhile)
  have "?d = rev ?e @ rev (takeWhile isspace (rev ?d))"
    by (metis rev_append rev_rev_ident takeWhile_dropWhile_id)
  then have "?d = py_strip s @ rev (takeWhile isspace (rev ?d))" by (simp add: py_strip_def)
  with ne have "hd ?d = hd (py_strip s)" by (metis hd_append2)
  with hd l show ?thesis by simp
qed

lemma strip_fixed:
  assumes "m = [] \<or> (\<not> isspace (hd m) \<and> \<not> isspace (last m))"
  shows "py_strip m = m"
proof (cases m rule: rev_cases)
  case Nil
  then show ?thesis by (simp add: py_strip_def)
next
  case (snoc ys y)
  with assms have h: "\<not> isspace (hd m)" and l: "\<not> isspace y" by simp_all
  from snoc have "m \<noteq> []" by simp
  with h have "dropWhile isspace m = m" by (cases m) simp_all
  with l snoc show ?thesis by (simp add: py_strip_def)
qed

lemma strip_idem: "py_strip (py_strip s) = py_strip s"
  using strip_edges [of s] by (intro strip_fixed) blast

lemma strip_snoc_space: "isspace w \<Longrightarrow> py_strip (x @ [w]) = py_strip x"
proof -
  assume w: "isspace w"
  show ?thesis
  proof (cases "list_all isspace x")
    case True
    with w have "\<forall>y\<in>set (x @ [w]). isspace y" "\<forall>y\<in>set x. isspace y"
      by (simp_all add: list_all_iff)
    then have "dropWhile isspace (x @ [w]) = []" "dropWhile isspace x = []"
      using dropWhile_eq_Nil_conv by blast+
    then show ?thesis by (simp only: py_strip_def)
  next
    case False
    then obtain y where "y \<in> set x" "\<not> isspace y" by (auto simp add: list_all_iff)
    then have "dropWhile isspace (x @ [w]) = dropWhile isspace x @ [w]"
      by (rule dropWhile_append1)
    with w show ?thesis by (simp add: py_strip_def)
  qed
qed

lemma words_split:
  "isspace w \<Longrightarrow> even (q + quotes_in u) \<Longrightarrow> b + depth_in u = 0 \<Longrightarrow>
     words_from q b cur (u @ w # v) =
       words_from q b cur u @ words_from (q + quotes_in u) 0 [] v"
proof (induction u arbitrary: q b cur)
  case Nil
  then show ?case by (simp add: counts_Nil isspace_counts)
next
  case (Cons c u)
  from Cons.prems have e: "even (quotes_after q c + quotes_in u)"
    and d: "brackets_after b c + depth_in u = 0"
    by (simp_all add: counts_Cons)
  note ih = Cons.IH [OF Cons.prems(1) e d]
  have q: "quotes_after q c + quotes_in u = q + quotes_in (c # u)"
    by (simp add: counts_Cons)
  show ?case
  proof (cases "isspace c \<and> even (quotes_after q c) \<and> brackets_after b c = 0")
    case True
    with ih [of "[]"] show ?thesis by (simp add: q)
  next
    case False
    with ih [of "cur @ [c]"] show ?thesis by (auto simp add: q)
  qed
qed

lemma words_skip:
  "list_all isspace l \<Longrightarrow> even q \<Longrightarrow> words_from q 0 [] (l @ x) = words_from q 0 [] x"
  by (induction l) (simp_all add: isspace_counts)

lemma words_strip:
  assumes "even q" "even (q + quotes_in t)" "depth_in t = 0"
  shows "words_from q 0 [] (py_strip t) = words_from q 0 [] t"
proof -
  from strip_decomp [of t] obtain l r where
    t: "t = l @ py_strip t @ r" and l: "list_all isspace l" and r: "list_all isspace r"
    by blast
  let ?m = "py_strip t"
  have "quotes_in t = quotes_in l + quotes_in ?m + quotes_in r"
    "depth_in t = depth_in l + depth_in ?m + depth_in r"
    using t counts_append by (metis add.assoc)+
  with counts_spaces [OF l] counts_spaces [OF r]
  have c: "quotes_in ?m = quotes_in t" "depth_in ?m = depth_in t" by simp_all
  have "words_from q 0 [] t = words_from q 0 [] (?m @ r)"
    using words_skip [OF l assms(1), of "?m @ r"] t by simp
  also have "\<dots> = words_from q 0 [] ?m"
  proof (cases r)
    case Nil
    then show ?thesis by simp
  next
    case (Cons w r')
    with r have w: "isspace w" and r': "list_all isspace r'" by simp_all
    have "words_from q 0 [] (?m @ w # r') =
        words_from q 0 [] ?m @ words_from (q + quotes_in ?m) 0 [] r'"
      using assms by (intro words_split [OF w]) (simp_all add: c)
    moreover have "words_from (q + quotes_in ?m) 0 [] (r' @ []) = words_from (q + quotes_in ?m) 0 [] []"
      using assms by (intro words_skip [OF r']) (simp add: c)
    ultimately show ?thesis using Cons by simp
  qed
  finally show ?thesis by simp
qed

lemma join_sp_Cons: "T \<noteq> [] \<Longrightarrow> join_sp (x # T) = x @ CHR '' '' # join_sp T"
  by (cases T) simp_all

lemma words_join_tokens:
  "even q0 \<Longrightarrow> q = q0 + quotes_in t \<Longrightarrow> b = depth_in t \<Longrightarrow>
   even (q + quotes_in s) \<Longrightarrow> b + depth_in s = 0 \<Longrightarrow>
     words_from q0 0 [] (join_sp (tokens_from q b t s)) = words_from q0 0 [] (t @ s)"
proof (induction s arbitrary: t q b q0)
  case Nil
  then show ?case by (simp add: counts_Nil words_strip)
next
  case (Cons c cs)
  show ?case
  proof (cases "is_separator q b c")
    case False
    have 1: "quotes_after q c = q0 + quotes_in (t @ [c])"
      using Cons.prems(2) by (simp add: counts_snoc after_add)
    have 2: "brackets_after b c = depth_in (t @ [c])"
      using Cons.prems(3) by (simp add: counts_snoc)
    have 3: "even (quotes_after q c + quotes_in cs)"
      using Cons.prems(4) by (simp add: counts_Cons)
    have 4: "brackets_after b c + depth_in cs = 0"
      using Cons.prems(5) by (simp add: counts_Cons)
    have "words_from q0 0 [] (join_sp (tokens_from (quotes_after q c) (brackets_after b c) (t @ [c]) cs))
        = words_from q0 0 [] ((t @ [c]) @ cs)"
      using Cons.prems(1) 1 2 3 4 by (rule Cons.IH)
    with False show ?thesis by simp
  next
    case True
    then have c: "c = CHR '' ''" and eq: "even q" and b0: "b = 0"
      by (simp_all add: is_separator_space)
    have qa: "quotes_after q c = q" "brackets_after b c = 0"
      using c b0 by (simp_all add: quotes_after_def brackets_after_def)
    let ?T = "tokens_from q 0 [] cs"
    have tok: "tokens_from q b t (c # cs) = py_strip (t @ '' '') # ?T"
      using True qa c by simp
    have cnt: "even (q0 + quotes_in (t @ '' ''))" "depth_in (t @ '' '') = 0"
      using Cons.prems eq b0 by (simp_all add: counts_snoc_space)
    have ws: "words_from q0 0 [] (py_strip (t @ '' '')) = words_from q0 0 [] (t @ '' '')"
      using Cons.prems(1) cnt by (rule words_strip)
    have wt: "words_from q0 0 [] (t @ CHR '' '' # v) =
        words_from q0 0 [] t @ words_from q 0 [] v" for v
      using words_split [OF isspace_space, of q0 t 0 "[]" v] Cons.prems eq b0 by simp
    from wt [of "[]"] have w1: "words_from q0 0 [] (t @ '' '') = words_from q0 0 [] t"
      by simp
    have e': "even (q + quotes_in cs)"
      using Cons.prems(4) qa by (simp add: counts_Cons)
    have d': "0 + depth_in cs = 0"
      using Cons.prems(5) qa by (simp add: counts_Cons)
    show ?thesis
    proof (cases cs)
      case Nil
      then show ?thesis using tok ws c by simp
    next
      case (Cons c' cs')
      then have "?T \<noteq> []" by (simp add: tokens_from_nonempty)
      then have j: "join_sp (py_strip (t @ '' '') # ?T) =
          py_strip (t @ '' '') @ CHR '' '' # join_sp ?T"
        by (rule join_sp_Cons)
      obtain l r where d: "t @ '' '' = l @ py_strip (t @ '' '') @ r"
        and l: "list_all isspace l" and r: "list_all isspace r"
        using strip_decomp [of "t @ '' ''"] by blast
      have "quotes_in (t @ '' '') = quotes_in l + quotes_in (py_strip (t @ '' '')) + quotes_in r"
        "depth_in (t @ '' '') = depth_in l + depth_in (py_strip (t @ '' '')) + depth_in r"
        using d counts_append by (metis add.assoc)+
      with counts_spaces [OF l] counts_spaces [OF r]
      have cm: "quotes_in (py_strip (t @ '' '')) = quotes_in t"
        "depth_in (py_strip (t @ '' '')) = depth_in t"
        by (simp_all add: counts_snoc_space)
      have "words_from q0 0 [] (py_strip (t @ '' '') @ CHR '' '' # join_sp ?T) =
          words_from q0 0 [] (py_strip (t @ '' '')) @
          words_from (q0 + quotes_in (py_strip (t @ '' ''))) 0 [] (join_sp ?T)"
        using \<open>q = q0 + quotes_in t\<close> \<open>b = depth_in t\<close> eq b0
        by (intro words_split [OF isspace_space]) (simp_all add: cm)
      also have "\<dots> = words_from q0 0 [] t @ words_from q 0 [] (join_sp ?T)"
        using \<open>q = q0 + quotes_in t\<close> by (simp add: ws w1 cm)
      also have "words_from q 0 [] (join_sp ?T) = words_from q 0 [] ([] @ cs)"
        using eq e' d'
        by (intro \<open>\<And>t q b q0. \<lbrakk>even q0; q = q0 + quotes_in t; b = depth_in t;
              even (q + quotes_in cs); b + depth_in cs = 0\<rbrakk>
            \<Longrightarrow> words_from q0 0 [] (join_sp (tokens_from q b t cs)) =
                words_from q0 0 [] (t @ cs)\<close>)
           (simp_all add: counts_Nil counts_Cons qa)
      finally show ?thesis using tok j wt [of cs] c by simp
    qed
  qed
qed

lemma words_of_joined_tokens:
  "balanced s \<Longrightarrow> words_outside (join_sp (parse_package_string s)) = words_outside s"
  using words_join_tokens [of 0 0 "[]" 0 s]
  by (simp add: balanced_def words_outside_def parse_tokens_from counts_Nil)

lemma nosep_tokens:
  "nosep q b s \<Longrightarrow>
     tokens_from q b u s = (if u @ s = [] then [] else [py_strip (u @ s)])"
  by (induction s arbitrary: q b u) simp_all

lemma single_token_shape:
  "tokens_from q b u s = [t] \<Longrightarrow>
     (nosep q b s \<and> t = py_strip (u @ s))
     \<or> (\<exists>s'. s = s' @ '' '' \<and> nosep q b s' \<and> t = py_strip (u @ s' @ '' ''))"
proof (induction s arbitrary: q b u)
  case Nil
  then show ?case by (simp split: if_splits)
next
  case (Cons c cs)
  show ?case
  proof (cases "is_separator q b c")
    case True
    with Cons.prems have t: "t = py_strip (u @ [c])"
      and e: "tokens_from (quotes_after q c) (brackets_after b c) [] cs = []"
      by simp_all
    from e have "cs = []" using tokens_from_nonempty by blast
    moreover from True have "c = CHR '' ''" by (simp add: is_separator_space)
    ultimately have "c # cs = [] @ '' '' \<and> nosep q b [] \<and> t = py_strip (u @ [] @ '' '')"
      using t by simp
    then show ?thesis by blast
  next
    case False
    with Cons.prems
    have "tokens_from (quotes_after q c) (brackets_after b c) (u @ [c]) cs = [t]" by simp
    from Cons.IH [OF this]
    consider "nosep (quotes_after q c) (brackets_after b c) cs" "t = py_strip ((u @ [c]) @ cs)"
      | s' where "cs = s' @ '' ''" "nosep (quotes_after q c) (brackets_after b c) s'"
          "t = py_strip ((u @ [c]) @ s' @ '' '')"
      by blast
    then show ?thesis
    proof cases
      case 1
      with False show ?thesis by simp
    next
      case 2
      with False have "c # cs = (c # s') @ '' '' \<and> nosep q b (c # s')
          \<and> t = py_strip (u @ (c # s') @ '' '')"
        by simp
      then show ?thesis by blast
    qed
  qed
qed

lemma nosep_drop_spaces:
  "list_all isspace l \<Longrightarrow> nosep q b (l @ m) \<Longrightarrow> nosep q b m"
  by (induction l) (simp_all add: isspace_counts)

lemma nosep_prefix: "nosep q b (m @ r) \<Longrightarrow> nosep q b m"
  by (induction m arbitrary: q b) simp_all

lemma nosep_strip: "nosep q b s \<Longrightarrow> nosep q b (py_strip s)"
proof -
  assume n: "nosep q b s"
  obtain l r where s: "s = l @ py_strip s @ r" and l: "list_all isspace l"
    using strip_decomp [of s] by blast
  from n s have "nosep q b (l @ py_strip s @ r)" by simp
  from nosep_drop_spaces [OF l this] show ?thesis by (rule nosep_prefix)
qed

lemma single_token_again:
  assumes "parse_package_string s = [t]" and "t \<noteq> []"
  shows "parse_package_string t = [t]"
proof -
  from assms(1) have "tokens_from 0 0 [] s = [t]" by (simp add: parse_tokens_from)
  from single_token_shape [OF this]
  obtain x where x: "nosep 0 0 x" "t = py_strip x"
    using strip_snoc_space [OF isspace_space] by (metis append_Nil)
  from x(1) have "nosep 0 0 (py_strip x)" by (rule nosep_strip)
  with x(2) have "nosep 0 0 t" by simp
  from nosep_tokens [OF this, of "[]"] assms(2)
  have "tokens_from 0 0 [] t = [py_strip t]" by simp
  also have "py_strip t = t" using x(2) by (simp add: strip_idem)
  finally show ?thesis by (simp add: parse_tokens_from)
qed

text \<open>
  C6 (as stated) fails: the line of one space is tokenized into the single token that is
  the empty string, and the empty string is tokenized into no token at all.
\<close>

theorem single_empty_token_not_idempotent:
  "parse_package_string '' '' = [[]] \<and> parse_package_string [] = []"
  by code_simp

text \<open>
  C6 (as the code has it). When a string is tokenized into a single token and that token
  is not empty, tokenizing the token gives it back. For a line with balanced quotes and
  brackets, the tokens joined with single spaces and the line have the same pieces
  between the runs of whitespace outside quoted and bracketed spans: the two differ only
  in such whitespace, inside the line or at its two ends.
\<close>

theorem tokens_again_and_rejoined:
  "(parse_package_string s = [t] \<and> t \<noteq> [] \<longrightarrow> parse_package_string t = [t])
   \<and> (balanced line \<longrightarrow>
        words_outside (join_sp (parse_package_string line)) = words_outside line)"
  using single_token_again words_of_joined_tokens by blast

theorem tokens_again_and_rejoined_witness:
  \<open>parse_package_string ''[ebuild   R   ]'' = [''[ebuild   R   ]'']
   \<and> words_outside (join_sp (parse_package_string ''[ebuild  U ]  a/b-1::x    USE="a  b" ''))
       = words_outside ''[ebuild  U ]  a/b-1::x    USE="a  b" ''
   \<and> join_sp (parse_package_string ''[ebuild  U ]  a/b-1::x    USE="a  b" '')
       = ''[ebuild  U ]  a/b-1::x    USE="a  b"''\<close>
proof -
  let ?s = "''[ebuild   R   ] ''"
  let ?t = "''[ebuild   R   ]''"
  let ?l = \<open>''[ebuild  U ]  a/b-1::x    USE="a  b" ''\<close>
  have 1: "parse_package_string ?s = [?t]" by code_simp
  have 2: "?t \<noteq> []" by simp
  have 3: "balanced ?l" by (simp add: balanced_def quotes_in_def depth_in_def)
  have 4: \<open>join_sp (parse_package_string ?l) = ''[ebuild  U ]  a/b-1::x    USE="a  b"''\<close>
    by code_simp
  from tokens_again_and_rejoined [of ?s ?t ?l] 1 2 have a: "parse_package_string ?t = [?t]"
    by blast
  from tokens_again_and_rejoined [of ?s ?t ?l] 3
  have b: "words_outside (join_sp (parse_package_string ?l)) = words_outside ?l"
    by blast
  from a b 4 show ?thesis by blast
qed

section \<open>The sections of a log\<close>

lemma update_fresh: "k \<notin> fst ` set d \<Longrightarrow> AList.update k v d = d @ [(k, v)]"
  by (induction d) auto

lemma contents_raw_update:
  "\<forall>e\<in>set d. fst e = k \<longrightarrow> is_raw (snd e) \<Longrightarrow>
     contents (AList.update k (Raw s) d) = contents d
     \<and> content_keys (AList.update k (Raw s) d) = content_keys d"
proof (induction d)
  case Nil
  show ?case by (simp add: contents_def content_keys_def)
next
  case (Cons e d)
  then have ih: "contents (AList.update k (Raw s) d) = contents d
     \<and> content_keys (AList.update k (Raw s) d) = content_keys d" by simp
  obtain k' v' where e: "e = (k', v')" by (cases e)
  show ?case
  proof (cases "k' = k")
    case True
    with Cons.prems e have "is_raw v'" by simp
    then obtain s' where "v' = Raw s'" by (cases v') simp_all
    with True e show ?thesis by (simp add: contents_def content_keys_def)
  next
    case False
    with e ih show ?thesis by (simp add: contents_def content_keys_def)
  qed
qed

lemma content_keys_subset: "set (content_keys d) \<subseteq> fst ` set d"
  by (auto simp add: content_keys_def)

lemma no_content_keys: "content_keys d = [] \<Longrightarrow> contents d = []"
proof (induction d)
  case Nil
  show ?case by (simp add: contents_def)
next
  case (Cons e d)
  obtain k v where e: "e = (k, v)" by (cases e)
  from Cons.prems e have "is_raw v" "content_keys d = []"
    by (simp_all add: content_keys_def split: if_splits)
  with Cons.IH e show ?case by (cases v) (simp_all add: contents_def)
qed

lemma content_key_lookup:
  "distinct (map fst d) \<Longrightarrow> k \<in> set (content_keys d) \<Longrightarrow>
     \<exists>cur. map_of d k = Some (Content cur)"
proof (induction d)
  case Nil
  then show ?case by (simp add: content_keys_def)
next
  case (Cons e d)
  obtain k' v' where e: "e = (k', v')" by (cases e)
  show ?case
  proof (cases "k' = k")
    case True
    with Cons.prems e have "k \<notin> fst ` set d" by simp
    with content_keys_subset [of d] have "k \<notin> set (content_keys d)" by blast
    with Cons.prems(2) e True have "\<not> is_raw v'"
      by (simp add: content_keys_def split: if_splits)
    then obtain cur where "v' = Content cur" by (cases v') simp_all
    with e True show ?thesis by simp
  next
    case False
    with Cons.prems e have "k \<in> set (content_keys d)" "distinct (map fst d)"
      by (simp_all add: content_keys_def split: if_splits)
    with Cons.IH e False show ?thesis by simp
  qed
qed

lemma contents_append_last:
  "distinct (map fst d) \<Longrightarrow> content_keys d \<noteq> [] \<Longrightarrow> last (content_keys d) = k \<Longrightarrow>
   map_of d k = Some (Content cur) \<Longrightarrow>
     contents (AList.update k (Content (cur @ [p])) d) = contents d @ [p]
     \<and> content_keys (AList.update k (Content (cur @ [p])) d) = content_keys d"
proof (induction d)
  case Nil
  then show ?case by (simp add: content_keys_def)
next
  case (Cons e d)
  obtain k' v' where e: "e = (k', v')" by (cases e)
  show ?case
  proof (cases "k' = k")
    case True
    with Cons.prems e have v: "v' = Content cur" and nk: "k \<notin> fst ` set d" by simp_all
    have "content_keys d = []"
    proof (rule ccontr)
      assume ne: "content_keys d \<noteq> []"
      with Cons.prems(3) e have "last (content_keys d) = k"
        by (simp add: content_keys_def split: if_splits)
      with ne have "k \<in> set (content_keys d)" using last_in_set by metis
      with content_keys_subset [of d] nk show False by blast
    qed
    then have c0: "contents d = []" by (rule no_content_keys)
    have 1: "contents (AList.update k (Content (cur @ [p])) (e # d)) = (cur @ [p]) @ contents d"
      using True e v by (simp add: contents_def)
    have 2: "contents (e # d) = cur @ contents d"
      using e v by (simp add: contents_def)
    have 3: "content_keys (AList.update k (Content (cur @ [p])) (e # d)) = content_keys (e # d)"
      using True e v by (simp add: content_keys_def)
    from 1 2 3 c0 show ?thesis by simp
  next
    case False
    have ne: "content_keys d \<noteq> []"
    proof
      assume "content_keys d = []"
      with Cons.prems(2,3) e have "k' = k"
        by (simp add: content_keys_def split: if_splits)
      with False show False by simp
    qed
    with Cons.prems e have l: "last (content_keys d) = k"
      by (simp add: content_keys_def split: if_splits)
    from Cons.prems e False have "distinct (map fst d)" "map_of d k = Some (Content cur)"
      by simp_all
    from Cons.IH [OF this(1) ne l this(2)] e False show ?thesis
      by (simp add: contents_def content_keys_def)
  qed
qed

lemma marked_index:
  "marked line \<Longrightarrow> index (py_split '' ::: '' line) 1 = Inr (py_split '' ::: '' line ! 1)"
  by (simp add: marked_def index_1 py_split_two)

lemma step_unmarked:
  "\<not> marked line \<Longrightarrow>
     sls_step \<lparr>section_name = nm, log_by_sections = d\<rparr> line =
       Inr \<lparr>section_name = nm, log_by_sections = AList.update ''final'' (Raw line) d\<rparr>"
  by (simp add: sls_step_def marked_def)

lemma step_header:
  "marked line \<Longrightarrow> is_header (kept_text line) \<Longrightarrow>
     sls_step \<lparr>section_name = nm, log_by_sections = d\<rparr> line =
       Inr \<lparr>section_name = kept_text line,
            log_by_sections = AList.update (kept_text line) (Content []) d\<rparr>"
  using marked_index [of line]
  by (simp add: sls_step_def marked_def is_header_def kept_text_def and_then_def Let_def)

lemma step_content:
  "marked line \<Longrightarrow> \<not> is_header (kept_text line) \<Longrightarrow> map_of d nm = Some (Content cur) \<Longrightarrow>
     sls_step \<lparr>section_name = nm, log_by_sections = d\<rparr> line =
       Inr \<lparr>section_name = nm,
            log_by_sections = AList.update nm (Content (cur @ [kept_text line])) d\<rparr>"
  using marked_index [of line]
  by (simp add: sls_step_def marked_def is_header_def kept_text_def and_then_def Let_def)

lemma header_not_final: "is_header p \<Longrightarrow> p \<noteq> ''final''"
proof
  assume "is_header p" "p = ''final''"
  then have "is_header ''final''" by simp
  moreover have "\<not> is_header ''final''" by code_simp
  ultimately show False by simp
qed

lemma header_not_beginning: "is_header p \<Longrightarrow> p \<noteq> ''beginning''"
proof
  assume "is_header p" "p = ''beginning''"
  then have "is_header ''beginning''" by simp
  moreover have "\<not> is_header ''beginning''" by code_simp
  ultimately show False by simp
qed

lemma update_entries: "e \<in> set (AList.update k v d) \<Longrightarrow> e = (k, v) \<or> e \<in> set d"
  by (induction d) (auto split: if_splits)

lemma ok_unmarked:
  assumes "sections_ok nm d"
  shows "sections_ok nm (AList.update ''final'' (Raw line) d)
    \<and> contents (AList.update ''final'' (Raw line) d) = contents d
    \<and> content_keys (AList.update ''final'' (Raw line) d) = content_keys d"
proof -
  let ?d = "AList.update ''final'' (Raw line) d"
  from assms have iv: "\<forall>e\<in>set d. (fst e = ''final'') = is_raw (snd e)"
    and di: "distinct (map fst d)" and ne: "content_keys d \<noteq> []"
    and la: "last (content_keys d) = nm"
    by (simp_all add: sections_ok_def)
  from iv have "\<forall>e\<in>set d. fst e = ''final'' \<longrightarrow> is_raw (snd e)" by simp
  from contents_raw_update [OF this, of line]
  have c: "contents ?d = contents d \<and> content_keys ?d = content_keys d" .
  have "\<forall>e\<in>set ?d. (fst e = ''final'') = is_raw (snd e)"
  proof
    fix e assume "e \<in> set ?d"
    from update_entries [OF this] iv show "(fst e = ''final'') = is_raw (snd e)" by auto
  qed
  with c di ne la show ?thesis by (simp add: sections_ok_def distinct_update)
qed

lemma ok_header:
  assumes "sections_ok nm d" "is_header p" "p \<notin> fst ` set d"
  shows "sections_ok p (AList.update p (Content []) d)
    \<and> contents (AList.update p (Content []) d) = contents d
    \<and> content_keys (AList.update p (Content []) d) = content_keys d @ [p]"
proof -
  have u: "AList.update p (Content []) d = d @ [(p, Content [])]"
    using assms(3) by (rule update_fresh)
  from assms(1) have iv: "\<forall>e\<in>set d. (fst e = ''final'') = is_raw (snd e)"
    and di: "distinct (map fst d)"
    by (simp_all add: sections_ok_def)
  have 1: "contents (d @ [(p, Content [])]) = contents d" by (simp add: contents_def)
  have 2: "content_keys (d @ [(p, Content [])]) = content_keys d @ [p]"
    by (simp add: content_keys_def)
  have 3: "distinct (map fst (d @ [(p, Content [])]))" using di assms(3) by auto
  have 4: "\<forall>e\<in>set (d @ [(p, Content [])]). (fst e = ''final'') = is_raw (snd e)"
    using iv header_not_final [OF assms(2)] by auto
  from 1 2 3 4 show ?thesis by (simp add: u sections_ok_def)
qed

lemma ok_content:
  assumes "sections_ok nm d"
  shows "\<exists>cur. map_of d nm = Some (Content cur) \<and> nm \<noteq> ''final''
    \<and> sections_ok nm (AList.update nm (Content (cur @ [p])) d)
    \<and> contents (AList.update nm (Content (cur @ [p])) d) = contents d @ [p]
    \<and> content_keys (AList.update nm (Content (cur @ [p])) d) = content_keys d
    \<and> fst ` set (AList.update nm (Content (cur @ [p])) d) = fst ` set d"
proof -
  from assms have iv: "\<forall>e\<in>set d. (fst e = ''final'') = is_raw (snd e)"
    and di: "distinct (map fst d)" and ne: "content_keys d \<noteq> []"
    and la: "last (content_keys d) = nm"
    by (simp_all add: sections_ok_def)
  from ne la have "nm \<in> set (content_keys d)" using last_in_set by metis
  from content_key_lookup [OF di this] obtain cur where cur: "map_of d nm = Some (Content cur)"
    by blast
  let ?d = "AList.update nm (Content (cur @ [p])) d"
  from cur have mem: "(nm, Content cur) \<in> set d" by (rule map_of_SomeD)
  with iv have nf: "nm \<noteq> ''final''" by fastforce
  from contents_append_last [OF di ne la cur, of p]
  have c: "contents ?d = contents d @ [p]" "content_keys ?d = content_keys d" by simp_all
  have "\<forall>e\<in>set ?d. (fst e = ''final'') = is_raw (snd e)"
  proof
    fix e assume "e \<in> set ?d"
    from update_entries [OF this] iv nf show "(fst e = ''final'') = is_raw (snd e)" by auto
  qed
  with c di ne la have ok: "sections_ok nm ?d" by (simp add: sections_ok_def distinct_update)
  from mem have "nm \<in> fst ` set d" by force
  then have k: "fst ` set ?d = fst ` set d" by (auto simp add: dom_update)
  from cur nf ok c k show ?thesis by blast
qed

lemma headers_are_headers: "p \<in> set (kept_headers ls) \<Longrightarrow> is_header p"
  by (simp add: kept_headers_def)

lemma loop_partition:
  assumes "sections_ok nm d" "distinct (kept_headers rest)"
    "set (kept_headers rest) \<inter> fst ` set d = {}"
  shows "\<exists>st. sls_loop \<lparr>section_name = nm, log_by_sections = d\<rparr> rest = Inr st
     \<and> distinct (map fst (log_by_sections st))
     \<and> contents (log_by_sections st) = contents d @ kept_lines rest
     \<and> content_keys (log_by_sections st) = content_keys d @ kept_headers rest
     \<and> map_of (log_by_sections st) ''final'' =
         (if unmarked rest = [] then map_of d ''final''
          else Some (Raw (last (unmarked rest))))"
  using assms
proof (induction rest arbitrary: nm d)
  case Nil
  then show ?case
    by (simp add: sections_ok_def kept_lines_def kept_headers_def unmarked_def)
next
  case (Cons line rest)
  show ?case
  proof (cases "marked line")
    case False
    let ?d = "AList.update ''final'' (Raw line) d"
    note ok = ok_unmarked [OF Cons.prems(1), of line]
    have h: "kept_headers (line # rest) = kept_headers rest"
      "kept_lines (line # rest) = kept_lines rest"
      "unmarked (line # rest) = line # unmarked rest"
      using False by (simp_all add: kept_headers_def kept_lines_def unmarked_def)
    have "''final'' \<notin> set (kept_headers rest)"
      using headers_are_headers header_not_final by blast
    with Cons.prems(3) have dj: "set (kept_headers rest) \<inter> fst ` set ?d = {}"
      by (auto simp add: h dom_update)
    from Cons.prems(2) have "distinct (kept_headers rest)" by (simp add: h)
    from Cons.IH [OF _ this dj, of nm] ok obtain st where
      st: "sls_loop \<lparr>section_name = nm, log_by_sections = ?d\<rparr> rest = Inr st"
      "distinct (map fst (log_by_sections st))"
      "contents (log_by_sections st) = contents ?d @ kept_lines rest"
      "content_keys (log_by_sections st) = content_keys ?d @ kept_headers rest"
      "map_of (log_by_sections st) ''final'' =
         (if unmarked rest = [] then map_of ?d ''final''
          else Some (Raw (last (unmarked rest))))"
      by blast
    have m: "map_of ?d ''final'' = Some (Raw line)" by (simp add: update_conv')
    from st ok m show ?thesis
      by (simp add: step_unmarked [OF False] and_then_def h)
  next
    case True
    show ?thesis
    proof (cases "is_header (kept_text line)")
      case hd: True
      let ?p = "kept_text line"
      let ?d = "AList.update ?p (Content []) d"
      have h: "kept_headers (line # rest) = ?p # kept_headers rest"
        "kept_lines (line # rest) = kept_lines rest"
        "unmarked (line # rest) = unmarked rest"
        using True hd by (simp_all add: kept_headers_def kept_lines_def unmarked_def)
      from Cons.prems(3) have fresh: "?p \<notin> fst ` set d" by (auto simp add: h)
      note ok = ok_header [OF Cons.prems(1) hd fresh]
      from Cons.prems(2) have di: "distinct (kept_headers rest)"
        and np: "?p \<notin> set (kept_headers rest)" by (simp_all add: h)
      from Cons.prems(3) np have dj: "set (kept_headers rest) \<inter> fst ` set ?d = {}"
        by (auto simp add: h dom_update)
      from Cons.IH [OF _ di dj, of ?p] ok obtain st where
        st: "sls_loop \<lparr>section_name = ?p, log_by_sections = ?d\<rparr> rest = Inr st"
        "distinct (map fst (log_by_sections st))"
        "contents (log_by_sections st) = contents ?d @ kept_lines rest"
        "content_keys (log_by_sections st) = content_keys ?d @ kept_headers rest"
        "map_of (log_by_sections st) ''final'' =
           (if unmarked rest = [] then map_of ?d ''final''
            else Some (Raw (last (unmarked rest))))"
        by blast
      have m: "map_of ?d ''final'' = map_of d ''final''"
        using header_not_final [OF hd] by (simp add: update_conv')
      from st ok m show ?thesis
        by (simp add: step_header [OF True hd] and_then_def h)
    next
      case nh: False
      let ?p = "kept_text line"
      from ok_content [OF Cons.prems(1), of ?p] obtain cur where
        cur: "map_of d nm = Some (Content cur)" and nf: "nm \<noteq> ''final''"
        and ok: "sections_ok nm (AList.update nm (Content (cur @ [?p])) d)"
        and c: "contents (AList.update nm (Content (cur @ [?p])) d) = contents d @ [?p]"
          "content_keys (AList.update nm (Content (cur @ [?p])) d) = content_keys d"
        and k: "fst ` set (AList.update nm (Content (cur @ [?p])) d) = fst ` set d"
        by blast
      let ?d = "AList.update nm (Content (cur @ [?p])) d"
      have h: "kept_headers (line # rest) = kept_headers rest"
        "kept_lines (line # rest) = ?p # kept_lines rest"
        "unmarked (line # rest) = unmarked rest"
        using True nh by (simp_all add: kept_headers_def kept_lines_def unmarked_def)
      from Cons.prems(2) have di: "distinct (kept_headers rest)" by (simp add: h)
      from Cons.prems(3) have dj: "set (kept_headers rest) \<inter> fst ` set ?d = {}"
        by (simp add: h k)
      from Cons.IH [OF ok di dj] obtain st where
        st: "sls_loop \<lparr>section_name = nm, log_by_sections = ?d\<rparr> rest = Inr st"
        "distinct (map fst (log_by_sections st))"
        "contents (log_by_sections st) = contents ?d @ kept_lines rest"
        "content_keys (log_by_sections st) = content_keys ?d @ kept_headers rest"
        "map_of (log_by_sections st) ''final'' =
           (if unmarked rest = [] then map_of ?d ''final''
            else Some (Raw (last (unmarked rest))))"
        by blast
      have m: "map_of ?d ''final'' = map_of d ''final''"
        using nf by (simp add: update_conv')
      from st c m show ?thesis
        by (simp add: step_content [OF True nh cur] and_then_def h)
    qed
  qed
qed

lemma kept_partition:
  assumes "distinct (kept_headers log_data)"
  shows "\<exists>d. split_log_to_sections log_data = Inr d
     \<and> distinct (map fst d)
     \<and> contents d = kept_lines log_data
     \<and> content_keys d = ''beginning'' # kept_headers log_data
     \<and> map_of d ''final'' =
         (if unmarked log_data = [] then None else Some (Raw (last (unmarked log_data))))"
proof -
  let ?d = "[(''beginning'', Content [])]"
  have ok: "sections_ok ''beginning'' ?d"
    by (simp add: sections_ok_def content_keys_def)
  have "''beginning'' \<notin> set (kept_headers log_data)"
    using headers_are_headers header_not_beginning by blast
  then have dj: "set (kept_headers log_data) \<inter> fst ` set ?d = {}" by simp
  from loop_partition [OF ok assms dj] show ?thesis
    by (auto simp add: split_log_to_sections_def sls_init_def and_then_def
        contents_def content_keys_def)
qed

lemma split_without_separator: "\<not> py_in sep s \<Longrightarrow> split_from sep cur s = [cur @ s]"
  by (induction s arbitrary: cur) simp_all

lemma second_piece_is_rest:
  "py_in sep s \<Longrightarrow> \<not> py_in sep (after_first sep s) \<Longrightarrow>
     split_from sep cur s ! 1 = after_first sep s"
proof (induction s arbitrary: cur)
  case Nil
  then show ?case by simp
next
  case (Cons c cs)
  show ?case
  proof (cases "starts_with sep (c # cs)")
    case True
    with Cons.prems(2) have "\<not> py_in sep (drop (length sep - 1) cs)" by simp
    then have "split_from sep [] (drop (length sep - 1) cs) = [drop (length sep - 1) cs]"
      using split_without_separator [of sep "drop (length sep - 1) cs" "[]"] by simp
    with True show ?thesis by simp
  next
    case False
    with Cons show ?thesis by simp
  qed
qed

lemma kept_text_payload:
  "marked line \<Longrightarrow> \<not> marked (after_marker line) \<Longrightarrow> kept_text line = payload line"
  using second_piece_is_rest [of "'' ::: ''" line "[]"]
  by (simp add: kept_text_def payload_def marked_def after_marker_def py_split_def)

lemma kept_texts_payloads:
  "list_all (\<lambda>line. \<not> marked (after_marker line)) (filter marked ls) \<Longrightarrow>
     map kept_text (filter marked ls) = map payload (filter marked ls)"
  by (induction ls) (auto simp add: kept_text_payload)

text \<open>
  C3 (as stated) fails: when a section header comes a second time, the section is emptied
  and the marked line that was in it is in no content list.
\<close>

theorem repeated_header_drops_lines:
  "split_log_to_sections [''t ::: {{ A }}'', ''t ::: x'', ''t ::: {{ A }}''] =
     Inr [(''beginning'', Content []), (''{{ A }}'', Content [])]"
  by code_simp

text \<open>
  A marked line that holds the marker a second time is cut at the second marker: of
  \<open>a ::: x ::: y\<close> only \<open>x\<close> is stored, not the text \<open>x ::: y\<close> after the marker.
\<close>

lemma second_marker_cuts_line:
  "split_log_to_sections [''a ::: x ::: y''] = Inr [(''beginning'', Content [''x''])]
   \<and> payload ''a ::: x ::: y'' = ''x ::: y''"
  by code_simp

text \<open>
  C3 (as the code has it). Take a log in which no header text comes twice and no marked
  line holds the marker a second time. Then \<open>split_log_to_sections\<close> returns a dictionary
  with distinct keys whose sections are \<open>beginning\<close> and then the headers in the order
  they appear, and whose content lists, put together in that order, are exactly the
  payloads (the trimmed text after the marker) of the marked lines that are not headers,
  in the order of the log: each such line is in exactly one content list. A header line
  only names a section. Of the unmarked lines only the last is kept, under the key
  \<open>final\<close>.
\<close>

theorem sections_partition:
  assumes "distinct (section_headers log_data)"
    and "list_all (\<lambda>line. \<not> marked (after_marker line)) (filter marked log_data)"
  shows "\<exists>d. split_log_to_sections log_data = Inr d
     \<and> distinct (map fst d)
     \<and> contents d = content_lines log_data
     \<and> content_keys d = ''beginning'' # section_headers log_data
     \<and> map_of d ''final'' =
         (if unmarked log_data = [] then None else Some (Raw (last (unmarked log_data))))"
proof -
  have m: "map kept_text (filter marked log_data) = map payload (filter marked log_data)"
    using assms(2) by (rule kept_texts_payloads)
  have k: "kept_headers log_data = section_headers log_data"
    "kept_lines log_data = content_lines log_data"
    by (simp_all only: kept_headers_def kept_lines_def section_headers_def content_lines_def m)
  from assms(1) have "distinct (kept_headers log_data)" by (simp add: k)
  from kept_partition [OF this] show ?thesis by (simp add: k)
qed

theorem sections_partition_witness:
  "\<exists>d. split_log_to_sections
          [''a ::: x'', ''junk'', ''b ::: {{ A }}'', ''c ::: y  '', ''tail'',
           ''d ::: z : w''] = Inr d
     \<and> contents d = [''x'', ''y'', ''z : w'']
     \<and> content_keys d = [''beginning'', ''{{ A }}'']
     \<and> map_of d ''final'' = Some (Raw ''tail'')"
proof -
  let ?log = "[''a ::: x'', ''junk'', ''b ::: {{ A }}'', ''c ::: y  '', ''tail'',
           ''d ::: z : w'']"
  have h: "section_headers ?log = [''{{ A }}'']" by code_simp
  have c: "content_lines ?log = [''x'', ''y'', ''z : w'']" by code_simp
  have u: "unmarked ?log = [''junk'', ''tail'']" by code_simp
  have 1: "distinct (section_headers ?log)" by (simp add: h)
  have 2: "list_all (\<lambda>line. \<not> marked (after_marker line)) (filter marked ?log)"
    by code_simp
  from sections_partition [OF 1 2] obtain d where
    "split_log_to_sections ?log = Inr d" "contents d = content_lines ?log"
    "content_keys d = ''beginning'' # section_headers ?log"
    "map_of d ''final'' =
       (if unmarked ?log = [] then None else Some (Raw (last (unmarked ?log))))"
    by blast
  then have "split_log_to_sections ?log = Inr d \<and> contents d = [''x'', ''y'', ''z : w'']
     \<and> content_keys d = [''beginning'', ''{{ A }}'']
     \<and> map_of d ''final'' = Some (Raw ''tail'')"
    by (simp add: h c u)
  then show ?thesis by blast
qed

end
